theory Spec2Isabelle
  imports Main "HOL-Library.AList" "HOL-Library.Char_ord" "HOL-Library.List_Lexorder"
    "HOL-Library.Product_Lexorder"
begin

section \<open>The node model\<close>

text \<open>
  Both tools (\<^verbatim>\<open>tt/xmlschema.py\<close>, class \<^verbatim>\<open>Analysis\<close>, and
  \<^verbatim>\<open>xml-schema/analysis.py\<close>, class \<^verbatim>\<open>SchemaAnalysis\<close>) read a tree that
  \<^verbatim>\<open>lxml\<close> has parsed. A node is seen through three calls only:
  \<^verbatim>\<open>etree.QName(node.tag).localname\<close>, \<^verbatim>\<open>node.get(attr)\<close> and
  \<^verbatim>\<open>node.iterchildren(tag=etree.Element)\<close>. A node of the model carries exactly
  these: its local tag, its attributes and its element children in document order.
\<close>

datatype node = Node (localname: string) (attribs: "(string \<times> string) list") (iterchildren: "node list")

text \<open>\<^verbatim>\<open>node.get(a)\<close>: the attribute value, or \<^verbatim>\<open>None\<close>.\<close>

definition get :: "node \<Rightarrow> string \<Rightarrow> string option" where
  "get n a = map_of (attribs n) a"

text \<open>Python truthiness of a value that is a string or \<^verbatim>\<open>None\<close> (or \<^verbatim>\<open>False\<close>).\<close>

fun truthy :: "string option \<Rightarrow> bool" where
  "truthy None = False"
| "truthy (Some s) = (s \<noteq> [])"

section \<open>Definition records and tables\<close>

text \<open>
  A record of the table is the Python dict built by
  \<^verbatim>\<open>dict(tag=tag, abstract=abstract, mixed=mixed, subs=subs)\<close>, to which the keys
  \<^verbatim>\<open>kind\<close> and \<^verbatim>\<open>base\<close> may be added later. The keys \<open>tag\<close>, \<open>abstract\<close>,
  \<open>mixed\<close> and \<open>subs\<close> are always present; \<open>subs\<close> holds a string or \<^verbatim>\<open>None\<close>;
  for \<open>kind\<close> and \<open>base\<close> the value \<open>None\<close> of the model is the absent key (the code
  reads both with \<^verbatim>\<open>info.get(key, None)\<close> only). The code tests
  \<^verbatim>\<open>info.get("mixed", None) is None\<close>, so the value of \<open>mixed\<close> is modelled as an
  optional boolean, \<open>None\<close> being Python's \<^verbatim>\<open>None\<close>.
\<close>

record info =
  tag :: string
  abstract :: bool
  mixed :: "bool option"
  subs :: "string option"
  kind :: "string option"
  base :: "string option"

text \<open>
  The table \<^verbatim>\<open>definitions\<close> is a Python dict, which keeps insertion order:
  an association list. \<^verbatim>\<open>definitions[k] = v\<close> is \<^const>\<open>AList.update\<close>: it replaces
  the value in place when the key exists and appends the pair otherwise.
  \<^verbatim>\<open>redefinitions\<close> is a \<^verbatim>\<open>collections.Counter\<close>: a missing key counts 0.
\<close>

type_synonym table = "(string \<times> info) list"

type_synonym counter = "string \<Rightarrow> nat"

datatype error = KeyError string

definition types :: "string set" where
  "types = {''simpleType'', ''complexType''}"

definition notInteresting :: "string set" where
  "notInteresting = {''attribute'', ''attributeGroup'', ''group''}"

section \<open>The definition extractor: \<^verbatim>\<open>findDefs\<close>\<close>

text \<open>
  \<^verbatim>\<open>findDefs\<close> is the same text in both files (lines 193--247 of
  \<^verbatim>\<open>tt/xmlschema.py\<close>, lines 143--197 of \<^verbatim>\<open>xml-schema/analysis.py\<close>). Its body has
  three parts, modelled one by one. \<open>definingName\<close> is a string or \<^verbatim>\<open>False\<close>
  (here \<open>None\<close>).

  First part, \<^verbatim>\<open>if definingName: ...\<close>: what a node below a definition adds to
  the record of that definition. \<^verbatim>\<open>definitions[definingName]\<close> raises
  \<^verbatim>\<open>KeyError\<close> when the name is not a key.
\<close>

definition noteInDefinition :: "node \<Rightarrow> string option \<Rightarrow> bool \<Rightarrow> table \<Rightarrow> error + table" where
  "noteInDefinition n definingName topDef definitions =
     (let tg = localname n; mx = (get n ''mixed'' = Some ''true'') in
      case definingName of
        None \<Rightarrow> Inr definitions
      | Some d \<Rightarrow>
          if d = [] then Inr definitions
          else if topDef then
            (if tg \<in> types then
               (case map_of definitions d of
                  None \<Rightarrow> Inl (KeyError d)
                | Some i \<Rightarrow>
                    let i1 = i\<lparr>kind := Some (if tg = ''simpleType'' then ''simple'' else ''complex'')\<rparr>;
                        i2 = (if mx then i1\<lparr>mixed := Some mx\<rparr> else i1)
                    in Inr (AList.update d i2 definitions))
             else Inr definitions)
          else
            (if tg = ''extension'' then
               (case get n ''base'' of
                  None \<Rightarrow> Inr definitions
                | Some b \<Rightarrow>
                    if b = [] then Inr definitions
                    else (case map_of definitions d of
                            None \<Rightarrow> Inl (KeyError d)
                          | Some i \<Rightarrow> Inr (AList.update d (i\<lparr>base := Some b\<rparr>) definitions)))
             else Inr definitions))"

text \<open>
  The record a named node registers:
  \<^verbatim>\<open>dict(tag=tag, abstract=abstract, mixed=mixed, subs=subs)\<close>.
\<close>

definition newInfo :: "node \<Rightarrow> info" where
  "newInfo n =
     \<lparr>tag = localname n,
      abstract = (get n ''abstract'' = Some ''true''),
      mixed = Some (get n ''mixed'' = Some ''true''),
      subs = get n ''substitutionGroup'',
      kind = None,
      base = None\<rparr>"

text \<open>
  Second part, \<^verbatim>\<open>if name and tag not in self.notInteresting: ...\<close>: a name that is
  already a key only bumps its redefinition counter.
\<close>

definition register :: "node \<Rightarrow> table \<times> counter \<Rightarrow> table \<times> counter" where
  "register n st =
     (case st of (definitions, redefinitions) \<Rightarrow>
        if truthy (get n ''name'') \<and> localname n \<notin> notInteresting then
          (case get n ''name'' of
             None \<Rightarrow> (definitions, redefinitions)
           | Some name \<Rightarrow>
               if name \<in> fst ` set definitions
               then (definitions, redefinitions(name := redefinitions name + 1))
               else (AList.update name (newInfo n) definitions, redefinitions))
        else (definitions, redefinitions))"

text \<open>
  Third part: the context \<^verbatim>\<open>(defining, top)\<close> that the children are visited with.
\<close>

definition childContext :: "node \<Rightarrow> string option \<Rightarrow> string option \<times> bool" where
  "childContext n definingName =
     (if truthy definingName then (definingName, False)
      else if truthy (get n ''name'') \<and> localname n = ''element''
           then (get n ''name'', True)
           else (None, False))"

fun findDefs :: "node \<Rightarrow> string option \<Rightarrow> bool \<Rightarrow> table \<times> counter \<Rightarrow> error + table \<times> counter"
  and findDefsChildren :: "node list \<Rightarrow> string option \<Rightarrow> bool \<Rightarrow> table \<times> counter \<Rightarrow> error + table \<times> counter"
where
  "findDefs (Node tg as cs) definingName topDef st =
     (case noteInDefinition (Node tg as cs) definingName topDef (fst st) of
        Inl e \<Rightarrow> Inl e
      | Inr definitions \<Rightarrow>
          (case childContext (Node tg as cs) definingName of
             (defining, top') \<Rightarrow>
               findDefsChildren cs defining top' (register (Node tg as cs) (definitions, snd st))))"
| "findDefsChildren [] defining top' st = Inr st"
| "findDefsChildren (child # cs) defining top' st =
     (case findDefs child defining top' st of
        Inl e \<Rightarrow> Inl e
      | Inr st' \<Rightarrow> findDefsChildren cs defining top' st')"

text \<open>\<^verbatim>\<open>definitions = {}; redefinitions = collections.Counter(); findDefs(root, False, False)\<close>\<close>

definition extractDefs :: "node \<Rightarrow> error + table \<times> counter" where
  "extractDefs root = findDefs root None False ([], (\<lambda>name. 0))"

section \<open>The resolution engine of \<^verbatim>\<open>tt/xmlschema.py\<close>: \<^verbatim>\<open>Analysis.resolve\<close>\<close>

text \<open>\<^verbatim>\<open>other = info.get("base", info.get("subs", None))\<close>\<close>

definition otherOf :: "info \<Rightarrow> string option" where
  "otherOf info = (case base info of Some b \<Rightarrow> Some b | None \<Rightarrow> subs info)"

text \<open>\<^verbatim>\<open>other.split(":", 1)[-1]\<close>: what follows the first colon, or all of it.\<close>

definition bare :: "string \<Rightarrow> string" where
  "bare other =
     (if CHR '':'' \<in> set other then tl (dropWhile (\<lambda>c. c \<noteq> CHR '':'') other) else other)"

text \<open>
  The three updates of \<^verbatim>\<open>infer\<close> on a record \<open>info\<close> with referenced record
  \<open>otherInfo\<close>. Each returns the record and the number it adds to \<^verbatim>\<open>changed\<close>,
  the second and the third also the lines they print.

  Lines 329--331: \<^verbatim>\<open>if otherInfo["mixed"]: info["mixed"] = True; changed += 1\<close>.
\<close>

definition mixedFromOther :: "info \<Rightarrow> info \<Rightarrow> info \<times> nat" where
  "mixedFromOther info otherInfo =
     (if mixed otherInfo = Some True then (info\<lparr>mixed := Some True\<rparr>, 1) else (info, 0))"

text \<open>Lines 332--337: the kind is copied when the record has none and the other has one.\<close>

definition kindFromOther :: "string \<Rightarrow> info \<Rightarrow> info \<Rightarrow> info \<times> nat \<times> string list" where
  "kindFromOther other info otherInfo =
     (if kind info = None then
        (if truthy (kind otherInfo) then (info\<lparr>kind := kind otherInfo\<rparr>, 1, [])
         else (info, 0, [''Warning: '' @ other @ ''.kind is not defined.'']))
      else (info, 0, []))"

text \<open>
  Lines 338--343: \<^verbatim>\<open>if info.get("mixed", None) is None:\<close> and then
  \<^verbatim>\<open>if otherInfo.get("mixed", None):\<close>, a truth test, which \<^verbatim>\<open>False\<close> and
  \<^verbatim>\<open>None\<close> both fail.
\<close>

definition mixedIfUnknown :: "string \<Rightarrow> info \<Rightarrow> info \<Rightarrow> info \<times> nat \<times> string list" where
  "mixedIfUnknown other info otherInfo =
     (if mixed info = None then
        (if mixed otherInfo = Some True then (info\<lparr>mixed := mixed otherInfo\<rparr>, 1, [])
         else (info, 0, [''Warning: '' @ other @ ''.mixed is not defined.'']))
      else (info, 0, []))"

text \<open>
  The body of the loop of \<^verbatim>\<open>infer\<close> for the record \<open>info\<close> stored under \<open>name\<close>.
  \<^verbatim>\<open>info\<close> and \<^verbatim>\<open>otherInfo\<close> are references: when the record refers to its own
  name they are one object, and \<open>otherInfo\<close> is then read after each update of \<open>info\<close>.
  (Records under different keys are different objects: \<^verbatim>\<open>findDefs\<close> builds each
  with its own \<^verbatim>\<open>dict(...)\<close> call.)
\<close>

definition inferRecord :: "table \<Rightarrow> string \<Rightarrow> info \<Rightarrow> info \<times> nat \<times> string list" where
  "inferRecord definitions name info =
     (if mixed info = Some True then (info, 0, [])
      else
        (case otherOf info of
           None \<Rightarrow> (info, 0, [])
         | Some other \<Rightarrow>
             if other = [] then (info, 0, [])
             else
               (case map_of definitions (bare other) of
                  None \<Rightarrow> (info, 0, [''Warning: '' @ other @ '' is not defined.''])
                | Some otherInfo \<Rightarrow>
                    (case mixedFromOther info otherInfo of
                       (info1, c1) \<Rightarrow>
                         (case kindFromOther other info1
                                 (if bare other = name then info1 else otherInfo) of
                            (info2, c2, w2) \<Rightarrow>
                              (case mixedIfUnknown other info2
                                      (if bare other = name then info2 else otherInfo) of
                                 (info3, c3, w3) \<Rightarrow> (info3, c1 + c2 + c3, w2 @ w3)))))))"

text \<open>
  One iteration of \<^verbatim>\<open>for (name, info) in definitions.items()\<close>. The state is the
  table, \<^verbatim>\<open>changed\<close> and the lines printed so far.
\<close>

definition inferStep :: "string \<Rightarrow> table \<times> nat \<times> string list \<Rightarrow> table \<times> nat \<times> string list" where
  "inferStep name st =
     (case st of (definitions, changed, out) \<Rightarrow>
        (case map_of definitions name of
           None \<Rightarrow> (definitions, changed, out)
         | Some info \<Rightarrow>
             (case inferRecord definitions name info of
                (info', c, w) \<Rightarrow> (AList.update name info' definitions, changed + c, out @ w))))"

text \<open>
  \<^verbatim>\<open>infer()\<close>: one scan over the keys, in the order of the dict. The scan changes
  values only, so the keys it visits are those of the table at its start.
\<close>

definition infer :: "table \<Rightarrow> table \<times> nat \<times> string list" where
  "infer definitions = fold inferStep (map fst definitions) (definitions, 0, [])"

subsection \<open>What is left to resolve\<close>

text \<open>
  A record has at most two fields that a scan can still fill: \<open>mixed\<close> while it is not
  true, \<open>kind\<close> while it is absent.
\<close>

definition pending :: "info \<Rightarrow> nat" where
  "pending info = (if mixed info = Some True then 0 else 1) + (if kind info = None then 1 else 0)"

definition unresolved :: "table \<Rightarrow> nat" where
  "unresolved definitions = sum_list (map (\<lambda>p. pending (snd p)) definitions)"

lemma mixedFromOther_pending:
  "mixedFromOther info otherInfo = (info', c) \<Longrightarrow> mixed info \<noteq> Some True \<Longrightarrow>
   pending info' + c = pending info"
  by (auto simp: mixedFromOther_def pending_def split: if_splits)

lemma kindFromOther_pending:
  "kindFromOther other info otherInfo = (info', c, w) \<Longrightarrow> pending info' + c = pending info"
  by (cases "kind otherInfo") (auto simp: kindFromOther_def pending_def split: if_splits)

lemma mixedIfUnknown_pending:
  "mixedIfUnknown other info otherInfo = (info', c, w) \<Longrightarrow> pending info' + c = pending info"
  by (auto simp: mixedIfUnknown_def pending_def split: if_splits)

lemma inferRecord_pending:
  assumes "inferRecord definitions name info = (info', c, w)"
  shows "pending info' + c = pending info"
proof (cases "mixed info = Some True \<or> otherOf info = None \<or> otherOf info = Some []
    \<or> (\<exists>other. otherOf info = Some other \<and> map_of definitions (bare other) = None)")
  case True
  with assms show ?thesis
    by (auto simp: inferRecord_def split: if_splits)
next
  case False
  then obtain other otherInfo where o: "otherOf info = Some other" "other \<noteq> []"
    "map_of definitions (bare other) = Some otherInfo" and m: "mixed info \<noteq> Some True"
    by auto
  obtain info1 c1 where s1: "mixedFromOther info otherInfo = (info1, c1)"
    by (cases "mixedFromOther info otherInfo") auto
  obtain info2 c2 w2 where s2:
    "kindFromOther other info1 (if bare other = name then info1 else otherInfo) = (info2, c2, w2)"
    by (cases "kindFromOther other info1 (if bare other = name then info1 else otherInfo)") auto
  obtain info3 c3 w3 where s3:
    "mixedIfUnknown other info2 (if bare other = name then info2 else otherInfo) = (info3, c3, w3)"
    by (cases "mixedIfUnknown other info2 (if bare other = name then info2 else otherInfo)") auto
  from assms o m s1 s2 s3 have r: "info' = info3" "c = c1 + c2 + c3"
    by (simp_all add: inferRecord_def)
  from mixedFromOther_pending [OF s1 m] kindFromOther_pending [OF s2] mixedIfUnknown_pending [OF s3] r
  show ?thesis by simp
qed

lemma unresolved_update:
  "map_of definitions k = Some old \<Longrightarrow>
   unresolved (AList.update k v definitions) + pending old = unresolved definitions + pending v"
  by (induction definitions) (auto simp: unresolved_def)

lemma inferStep_unresolved:
  assumes "inferStep name (definitions, changed, out) = (definitions', changed', out')"
  shows "unresolved definitions' + changed' = unresolved definitions + changed"
proof (cases "map_of definitions name")
  case None
  with assms show ?thesis by (simp add: inferStep_def)
next
  case (Some info)
  obtain info' c w where r: "inferRecord definitions name info = (info', c, w)"
    by (cases "inferRecord definitions name info") auto
  from assms Some r have e: "definitions' = AList.update name info' definitions" "changed' = changed + c"
    by (simp_all add: inferStep_def)
  from unresolved_update [OF Some, of info'] inferRecord_pending [OF r] e
  show ?thesis by simp
qed

lemma fold_inferStep_unresolved:
  "fold inferStep names (definitions, changed, out) = (definitions', changed', out') \<Longrightarrow>
   unresolved definitions' + changed' = unresolved definitions + changed"
proof (induction names arbitrary: definitions changed out)
  case Nil
  then show ?case by simp
next
  case (Cons name names)
  obtain d1 c1 o1 where s: "inferStep name (definitions, changed, out) = (d1, c1, o1)"
    by (cases "inferStep name (definitions, changed, out)") auto
  with Cons.prems have "fold inferStep names (d1, c1, o1) = (definitions', changed', out')"
    by simp
  from Cons.IH [OF this] inferStep_unresolved [OF s] show ?case by simp
qed

lemma infer_unresolved:
  "infer definitions = (definitions', changed, w) \<Longrightarrow>
   unresolved definitions' + changed = unresolved definitions"
  using fold_inferStep_unresolved [of "map fst definitions" definitions 0 "[]" definitions' changed w]
  by (simp add: infer_def)

section \<open>The resolution engine of \<^verbatim>\<open>xml-schema/analysis.py\<close>: \<^verbatim>\<open>SchemaAnalysis.resolve\<close>\<close>

text \<open>
  Line 241:
  \<^verbatim>\<open>if info.get("kind", None) is None and otherInfo.get("kind", None): ...\<close>,
  with no warning.
\<close>

definition kindFromOtherSA :: "info \<Rightarrow> info \<Rightarrow> info \<times> nat" where
  "kindFromOtherSA info otherInfo =
     (if kind info = None \<and> truthy (kind otherInfo) then (info\<lparr>kind := kind otherInfo\<rparr>, 1)
      else (info, 0))"

text \<open>
  The body of the loop of \<^verbatim>\<open>infer\<close> in this file. The referenced record is read
  with \<^verbatim>\<open>definitions[other]\<close>, which raises \<^verbatim>\<open>KeyError\<close> for a name that is
  not a key; there is no third update.
\<close>

definition inferRecordSA :: "table \<Rightarrow> string \<Rightarrow> info \<Rightarrow> error + info \<times> nat" where
  "inferRecordSA definitions name info =
     (if mixed info = Some True then Inr (info, 0)
      else
        (case otherOf info of
           None \<Rightarrow> Inr (info, 0)
         | Some other \<Rightarrow>
             if other = [] then Inr (info, 0)
             else
               (case map_of definitions (bare other) of
                  None \<Rightarrow> Inl (KeyError (bare other))
                | Some otherInfo \<Rightarrow>
                    (case mixedFromOther info otherInfo of
                       (info1, c1) \<Rightarrow>
                         (case kindFromOtherSA info1
                                 (if bare other = name then info1 else otherInfo) of
                            (info2, c2) \<Rightarrow> Inr (info2, c1 + c2))))))"

definition inferStepSA :: "string \<Rightarrow> table \<times> nat \<Rightarrow> error + table \<times> nat" where
  "inferStepSA name st =
     (case st of (definitions, changed) \<Rightarrow>
        (case map_of definitions name of
           None \<Rightarrow> Inr (definitions, changed)
         | Some info \<Rightarrow>
             (case inferRecordSA definitions name info of
                Inl e \<Rightarrow> Inl e
              | Inr (info', c) \<Rightarrow> Inr (AList.update name info' definitions, changed + c))))"

text \<open>The scan stops at the first exception.\<close>

fun inferLoopSA :: "string list \<Rightarrow> table \<times> nat \<Rightarrow> error + table \<times> nat" where
  "inferLoopSA [] st = Inr st"
| "inferLoopSA (name # names) st =
     (case inferStepSA name st of Inl e \<Rightarrow> Inl e | Inr st' \<Rightarrow> inferLoopSA names st')"

definition inferSA :: "table \<Rightarrow> error + table \<times> nat" where
  "inferSA definitions = inferLoopSA (map fst definitions) (definitions, 0)"

subsection \<open>A scan of \<^verbatim>\<open>SchemaAnalysis\<close> that returns is a scan of \<^verbatim>\<open>Analysis\<close>\<close>

lemma kindFromOtherSA_kindFromOther:
  "kindFromOtherSA info otherInfo = (info', c) \<Longrightarrow> \<exists>w. kindFromOther other info otherInfo = (info', c, w)"
  by (auto simp: kindFromOtherSA_def kindFromOther_def split: if_splits)

lemma mixedFromOther_mixed:
  "mixedFromOther info otherInfo = (info', c) \<Longrightarrow>
   mixed info' = (if mixed otherInfo = Some True then Some True else mixed info) \<and> kind info' = kind info"
  by (auto simp: mixedFromOther_def split: if_splits)

lemma kindFromOtherSA_mixed:
  "kindFromOtherSA info otherInfo = (info', c) \<Longrightarrow> mixed info' = mixed info"
  by (auto simp: kindFromOtherSA_def split: if_splits)

lemma inferRecordSA_inferRecord:
  assumes "inferRecordSA definitions name info = Inr (info', c)"
  shows "\<exists>w. inferRecord definitions name info = (info', c, w)"
proof (cases "mixed info = Some True \<or> otherOf info = None \<or> otherOf info = Some []")
  case True
  with assms show ?thesis
    by (auto simp: inferRecordSA_def inferRecord_def split: if_splits)
next
  case False
  then obtain other where o: "otherOf info = Some other" "other \<noteq> []" and m: "mixed info \<noteq> Some True"
    by auto
  from assms o m obtain otherInfo where oi: "map_of definitions (bare other) = Some otherInfo"
    by (cases "map_of definitions (bare other)") (auto simp: inferRecordSA_def)
  obtain info1 c1 where s1: "mixedFromOther info otherInfo = (info1, c1)"
    by (cases "mixedFromOther info otherInfo") auto
  obtain info2 c2 where s2:
    "kindFromOtherSA info1 (if bare other = name then info1 else otherInfo) = (info2, c2)"
    by (cases "kindFromOtherSA info1 (if bare other = name then info1 else otherInfo)") auto
  from assms o m oi s1 s2 have r: "info' = info2" "c = c1 + c2"
    by (simp_all add: inferRecordSA_def)
  from kindFromOtherSA_kindFromOther [OF s2, of other] obtain w2 where k2:
    "kindFromOther other info1 (if bare other = name then info1 else otherInfo) = (info2, c2, w2)"
    by blast
  have idle: "mixed info2 = None \<Longrightarrow>
    mixed (if bare other = name then info2 else otherInfo) \<noteq> Some True"
    using mixedFromOther_mixed [OF s1] kindFromOtherSA_mixed [OF s2] by (auto split: if_splits)
  have "\<exists>w3. mixedIfUnknown other info2 (if bare other = name then info2 else otherInfo) = (info2, 0, w3)"
    using idle by (auto simp: mixedIfUnknown_def)
  then obtain w3 where k3:
    "mixedIfUnknown other info2 (if bare other = name then info2 else otherInfo) = (info2, 0, w3)"
    by blast
  from o m oi s1 k2 k3 r show ?thesis
    by (simp add: inferRecord_def)
qed

lemma inferStepSA_inferStep:
  assumes "inferStepSA name (definitions, changed) = Inr (definitions', changed')"
  shows "\<exists>out'. inferStep name (definitions, changed, out) = (definitions', changed', out')"
proof (cases "map_of definitions name")
  case None
  with assms show ?thesis by (simp add: inferStepSA_def inferStep_def)
next
  case (Some info)
  with assms obtain info' c where r: "inferRecordSA definitions name info = Inr (info', c)"
    and e: "definitions' = AList.update name info' definitions" "changed' = changed + c"
    by (auto simp: inferStepSA_def split: sum.splits)
  from inferRecordSA_inferRecord [OF r] obtain w where "inferRecord definitions name info = (info', c, w)"
    by blast
  with Some e show ?thesis by (simp add: inferStep_def)
qed

lemma inferLoopSA_fold:
  "inferLoopSA names (definitions, changed) = Inr (definitions', changed') \<Longrightarrow>
   \<exists>out'. fold inferStep names (definitions, changed, out) = (definitions', changed', out')"
proof (induction names arbitrary: definitions changed out)
  case Nil
  then show ?case by simp
next
  case (Cons name names)
  from Cons.prems obtain d1 c1 where s: "inferStepSA name (definitions, changed) = Inr (d1, c1)"
    and t: "inferLoopSA names (d1, c1) = Inr (definitions', changed')"
    by (auto split: sum.splits)
  from inferStepSA_inferStep [OF s, of out] obtain o1 where
    "inferStep name (definitions, changed, out) = (d1, c1, o1)" by blast
  with Cons.IH [OF t, of o1] show ?case by simp
qed

lemma inferSA_infer:
  "inferSA definitions = Inr (definitions', changed) \<Longrightarrow> \<exists>w. infer definitions = (definitions', changed, w)"
  using inferLoopSA_fold [of "map fst definitions" definitions 0 definitions' changed "[]"]
  by (simp add: inferSA_def infer_def)

section \<open>The loop of \<^verbatim>\<open>resolve\<close>\<close>

text \<open>
  \<^verbatim>\<open>print(f"round {i:>3}: {changed:>3} changes")\<close>: decimal numbers, right-aligned to
  three columns.
\<close>

function showNat :: "nat \<Rightarrow> string" where
  "showNat n =
     (if n < 10 then [''0123456789'' ! n]
      else showNat (n div 10) @ [''0123456789'' ! (n mod 10)])"
  by pat_completeness auto
termination
  by (relation "measure id") auto

declare showNat.simps [simp del]

definition rjust3 :: "string \<Rightarrow> string" where
  "rjust3 s = replicate (3 - length s) CHR '' '' @ s"

definition roundLine :: "nat \<Rightarrow> nat \<Rightarrow> string" where
  "roundLine i changed = ''round '' @ rjust3 (showNat i) @ '': '' @ rjust3 (showNat changed) @ '' changes''"

text \<open>
  \<^verbatim>\<open>i = 0; while True: changed = infer(); i += 1; if changed: print(...) else: break\<close>.
  The loop has no other exit, so the model needs a proof that it ends: every scan that
  reports a change leaves fewer unresolved fields. The result holds the table, the final
  \<open>i\<close>, the value of \<^verbatim>\<open>changed\<close> of every scan in order (which the code prints
  round by round and the model keeps as a list), and the printed lines.
\<close>

function resolveLoop :: "nat \<Rightarrow> nat list \<Rightarrow> string list \<Rightarrow> table \<Rightarrow> table \<times> nat \<times> nat list \<times> string list" where
  "resolveLoop i scans out definitions =
     (case infer definitions of
        (definitions', changed, w) \<Rightarrow>
          if changed \<noteq> 0
          then resolveLoop (i + 1) (scans @ [changed]) (out @ w @ [roundLine (i + 1) changed]) definitions'
          else (definitions', i + 1, scans @ [changed], out @ w))"
  by pat_completeness auto
termination
proof (relation "measure (\<lambda>(i, scans, out, definitions). unresolved definitions)")
  show "wf (measure (\<lambda>(i, scans, out, definitions). unresolved definitions))"
    by simp
next
  fix i :: nat and scans :: "nat list" and out :: "string list" and definitions :: table
    and definitions' y changed w
  assume "(definitions', y) = infer definitions" "(changed, w) = y" "changed \<noteq> 0"
  then have "infer definitions = (definitions', changed, w)" by simp
  from infer_unresolved [OF this] \<open>changed \<noteq> 0\<close>
  show "((i + 1, scans @ [changed], out @ w @ [roundLine (i + 1) changed], definitions'),
         (i, scans, out, definitions)) \<in> measure (\<lambda>(i, scans, out, definitions). unresolved definitions)"
    by simp
qed

declare resolveLoop.simps [simp del]

definition resolve :: "table \<Rightarrow> table \<times> nat \<times> nat list \<times> string list" where
  "resolve definitions = resolveLoop 0 [] [] definitions"

text \<open>The same loop in \<^verbatim>\<open>xml-schema/analysis.py\<close>, where a scan can raise.\<close>

function resolveLoopSA :: "nat \<Rightarrow> nat list \<Rightarrow> string list \<Rightarrow> table \<Rightarrow> error + table \<times> nat \<times> nat list \<times> string list" where
  "resolveLoopSA i scans out definitions =
     (case inferSA definitions of
        Inl e \<Rightarrow> Inl e
      | Inr (definitions', changed) \<Rightarrow>
          if changed \<noteq> 0
          then resolveLoopSA (i + 1) (scans @ [changed]) (out @ [roundLine (i + 1) changed]) definitions'
          else Inr (definitions', i + 1, scans @ [changed], out))"
  by pat_completeness auto
termination
proof (relation "measure (\<lambda>(i, scans, out, definitions). unresolved definitions)")
  show "wf (measure (\<lambda>(i, scans, out, definitions). unresolved definitions))"
    by simp
next
  fix i :: nat and scans :: "nat list" and out :: "string list" and definitions :: table
    and x definitions' changed
  assume "inferSA definitions = Inr x" "(definitions', changed) = x" "changed \<noteq> 0"
  then have "inferSA definitions = Inr (definitions', changed)" by simp
  from inferSA_infer [OF this] obtain w where "infer definitions = (definitions', changed, w)"
    by blast
  from infer_unresolved [OF this] \<open>changed \<noteq> 0\<close>
  show "((i + 1, scans @ [changed], out @ [roundLine (i + 1) changed], definitions'),
         (i, scans, out, definitions)) \<in> measure (\<lambda>(i, scans, out, definitions). unresolved definitions)"
    by simp
qed

declare resolveLoopSA.simps [simp del]

definition resolveSA :: "table \<Rightarrow> error + table \<times> nat \<times> nat list \<times> string list" where
  "resolveSA definitions = resolveLoopSA 0 [] [] definitions"

section \<open>The report\<close>

text \<open>
  \<^verbatim>\<open>eKey\<close>, the sort key (the same in both files): a triple of strings, compared as
  Python compares tuples of strings.
\<close>

definition eKey :: "string \<times> info \<Rightarrow> string \<times> string \<times> string" where
  "eKey x =
     (let name = fst x; tg = tag (snd x); abstr = abstract (snd x) in
      (if tg = ''simpleType'' then ''0'' else if tg = ''complexType'' then ''1'' else tg,
       if abstr then [] else ''x'',
       name))"

text \<open>
  The tuple \<^verbatim>\<open>defs\<close>: \<^verbatim>\<open>sorted\<close> is stable, as \<^const>\<open>sort_key\<close> is, and the
  filter runs over the sorted items.
\<close>

definition selectDefs :: "table \<Rightarrow> (string \<times> string option \<times> bool option) list" where
  "selectDefs definitions =
     map (\<lambda>(name, info). (name, kind info, mixed info))
       (filter (\<lambda>(name, info). tag info = ''element'' \<and> \<not> abstract info)
          (sort_key eKey definitions))"

definition repMixed :: "bool option \<Rightarrow> string" where
  "repMixed m = (case m of None \<Rightarrow> ''-----'' | Some b \<Rightarrow> if b then ''mixed'' else ''pure'')"

definition repKind :: "string option \<Rightarrow> string" where
  "repKind k = (case k of None \<Rightarrow> ''-----'' | Some s \<Rightarrow> s)"

text \<open>\<^verbatim>\<open>sep.join(lines)\<close>\<close>

fun join :: "string \<Rightarrow> string list \<Rightarrow> string" where
  "join sep [] = []"
| "join sep [x] = x"
| "join sep (x # y # ys) = x @ sep @ join sep (y # ys)"

text \<open>\<^verbatim>\<open>f"{name}\t{repKind(kind)}\t{repMixed(mixed)}"\<close> in \<^verbatim>\<open>tt/xmlschema.py\<close>.\<close>

definition tsvLine :: "string \<times> string option \<times> bool option \<Rightarrow> string" where
  "tsvLine d = (case d of (name, k, m) \<Rightarrow> name @ [CHR 0x09] @ repKind k @ [CHR 0x09] @ repMixed m)"

text \<open>
  \<^verbatim>\<open>f"""{name}\t{kind or "---"}\t{"mixed" if mixed else "pure"}"""\<close> in
  \<^verbatim>\<open>xml-schema/analysis.py\<close>.
\<close>

definition tsvLineSA :: "string \<times> string option \<times> bool option \<Rightarrow> string" where
  "tsvLineSA d =
     (case d of (name, k, m) \<Rightarrow>
        name @ [CHR 0x09] @ (if truthy k then (case k of Some s \<Rightarrow> s | None \<Rightarrow> ''---'') else ''---'')
          @ [CHR 0x09] @ (if m = Some True then ''mixed'' else ''pure''))"

text \<open>What \<^verbatim>\<open>interpret\<close> returns: the TSV text or the tuple.\<close>

datatype report = Tsv string | Defs "(string \<times> string option \<times> bool option) list"

section \<open>The override merge of \<^verbatim>\<open>tt/xmlschema.py\<close>\<close>

text \<open>Lines 277--289: the labels of both sides and the transition.\<close>

definition transRep :: "info \<Rightarrow> info \<Rightarrow> string option" where
  "transRep baseDef odef =
     (let baseKind = repKind (kind baseDef); baseMixed = repMixed (mixed baseDef);
          oKind = repKind (kind odef); oMixed = repMixed (mixed odef)
      in if baseKind \<noteq> oKind \<and> baseMixed \<noteq> oMixed
         then Some (baseKind @ '' '' @ baseMixed @ '' ==> '' @ oKind @ '' '' @ oMixed)
         else if baseKind \<noteq> oKind then Some (baseKind @ '' ==> '' @ oKind)
         else if baseMixed \<noteq> oMixed then Some (baseMixed @ '' ==> '' @ oMixed)
         else None)"

text \<open>
  Lines 274--292: \<^verbatim>\<open>for (name, odef) in definitions.items(): if name in definitions: ...\<close>,
  where \<^verbatim>\<open>definitions\<close> is the override table in both places, and
  \<^verbatim>\<open>baseDefinitions[name]\<close> raises \<^verbatim>\<open>KeyError\<close> for a name that the base table
  does not have. \<^verbatim>\<open>self.overrides\<close> is a dict from names to a transition or
  \<^verbatim>\<open>None\<close>.
\<close>

type_synonym overrides = "(string \<times> string option) list"

fun mergeLoop :: "(string \<times> info) list \<Rightarrow> table \<Rightarrow> table \<Rightarrow> overrides \<Rightarrow> error + table \<times> overrides" where
  "mergeLoop [] definitions baseDefinitions ovs = Inr (baseDefinitions, ovs)"
| "mergeLoop ((name, odef) # items) definitions baseDefinitions ovs =
     (if name \<in> fst ` set definitions then
        (case map_of baseDefinitions name of
           None \<Rightarrow> Inl (KeyError name)
         | Some baseDef \<Rightarrow>
             mergeLoop items definitions
               (if transRep baseDef odef \<noteq> None then AList.update name odef baseDefinitions
                else baseDefinitions)
               (AList.update name (transRep baseDef odef) ovs))
      else mergeLoop items definitions baseDefinitions ovs)"

definition merge :: "table \<Rightarrow> table \<Rightarrow> error + table \<times> overrides" where
  "merge baseDefinitions definitions = mergeLoop definitions definitions baseDefinitions []"

section \<open>\<^verbatim>\<open>interpret\<close>\<close>

text \<open>
  \<^verbatim>\<open>Analysis.interpret\<close> of \<^verbatim>\<open>tt/xmlschema.py\<close>, with \<^verbatim>\<open>debug\<close> off as
  \<^verbatim>\<open>main\<close> sets it. It reads \<^verbatim>\<open>self.root\<close> and \<^verbatim>\<open>self.oroot\<close>; the result is
  the report, \<^verbatim>\<open>self.overrides\<close> and the printed lines, or the exception.
  \<open>mergedTable\<close> is the part up to line 292, which leaves the table that is reported
  in \<^verbatim>\<open>baseDefinitions\<close>.
\<close>

definition mergedTable :: "node \<Rightarrow> node option \<Rightarrow> error + table \<times> overrides \<times> string list" where
  "mergedTable rt ort =
     (case extractDefs rt of
        Inl e \<Rightarrow> Inl e
      | Inr (definitions, redefinitions) \<Rightarrow>
          (case resolve definitions of
             (baseDefinitions, i, scans, out) \<Rightarrow>
               (case ort of
                  None \<Rightarrow> Inr (baseDefinitions, [], out)
                | Some r \<Rightarrow>
                    (case extractDefs r of
                       Inl e \<Rightarrow> Inl e
                     | Inr (definitions2, redefinitions2) \<Rightarrow>
                         (case resolve definitions2 of
                            (odefinitions, i2, scans2, out2) \<Rightarrow>
                              (case merge baseDefinitions odefinitions of
                                 Inl e \<Rightarrow> Inl e
                               | Inr (merged, ovs) \<Rightarrow> Inr (merged, ovs, out @ out2)))))))"

definition Analysis_interpret :: "node \<Rightarrow> node option \<Rightarrow> bool \<Rightarrow> error + report \<times> overrides \<times> string list" where
  "Analysis_interpret rt ort asTsv =
     (case mergedTable rt ort of
        Inl e \<Rightarrow> Inl e
      | Inr (final, ovs, printed) \<Rightarrow>
          Inr (if asTsv then Tsv (join [CHR 0x0A] (map tsvLine (selectDefs final)))
               else Defs (selectDefs final),
               ovs, printed))"

text \<open>\<^verbatim>\<open>SchemaAnalysis.interpret\<close> of \<^verbatim>\<open>xml-schema/analysis.py\<close>, with \<^verbatim>\<open>debug\<close> off.\<close>

definition interpretSA :: "node \<Rightarrow> bool \<Rightarrow> error + report \<times> string list" where
  "interpretSA rt asTsv =
     (case extractDefs rt of
        Inl e \<Rightarrow> Inl e
      | Inr (definitions, redefinitions) \<Rightarrow>
          (case resolveSA definitions of
             Inl e \<Rightarrow> Inl e
           | Inr (final, i, scans, out) \<Rightarrow>
               Inr (if asTsv then Tsv (join [CHR 0x0A] (map tsvLineSA (selectDefs final)))
                    else Defs (selectDefs final),
                    out)))"

section \<open>\<^verbatim>\<open>Analysis.__init__\<close> and the run of \<^verbatim>\<open>main\<close>\<close>

text \<open>
  The files are a function from paths to parsed roots: \<open>None\<close> when
  \<^verbatim>\<open>open\<close> or \<^verbatim>\<open>etree.parse\<close> raises. Lines 101--123: the second
  \<^verbatim>\<open>open\<close> (line 110) is \<^verbatim>\<open>open(baseSchema)\<close> too.
\<close>

record analysis =
  good :: bool
  root :: "node option"
  oroot :: "node option"

definition Analysis_init :: "(string \<Rightarrow> node option) \<Rightarrow> string \<Rightarrow> string option \<Rightarrow> analysis" where
  "Analysis_init files baseSchema override =
     (case files baseSchema of
        None \<Rightarrow> \<lparr>good = False, root = None, oroot = None\<rparr>
      | Some tree \<Rightarrow>
          (case override of
             None \<Rightarrow> \<lparr>good = True, root = Some tree, oroot = None\<rparr>
           | Some opath \<Rightarrow>
               (case files baseSchema of
                  None \<Rightarrow> \<lparr>good = False, root = Some tree, oroot = None\<rparr>
                | Some otree \<Rightarrow> \<lparr>good = True, root = Some tree, oroot = Some otree\<rparr>)))"

text \<open>
  Lines 427--431 of \<^verbatim>\<open>main\<close>:
  \<^verbatim>\<open>A = Analysis(baseSchema, override=override, debug=False)\<close>,
  \<^verbatim>\<open>if not A.good: return 1\<close>, \<^verbatim>\<open>defs = A.interpret(asTsv=True)\<close>.
  \<open>None\<close> is the return of 1.
\<close>

definition analyse :: "(string \<Rightarrow> node option) \<Rightarrow> string \<Rightarrow> string option \<Rightarrow> (error + report \<times> overrides \<times> string list) option" where
  "analyse files baseSchema override =
     (let A = Analysis_init files baseSchema override in
      if \<not> good A then None
      else (case root A of None \<Rightarrow> None | Some rt \<Rightarrow> Some (Analysis_interpret rt (oroot A) True)))"

section \<open>Resolution only adds knowledge\<close>

text \<open>
  \<open>grows info info'\<close>: the record \<open>info'\<close> is \<open>info\<close> with, at most, \<open>mixed\<close> raised
  to true and an absent \<open>kind\<close> filled in.
\<close>

definition grows :: "info \<Rightarrow> info \<Rightarrow> bool" where
  "grows info info' =
     (tag info' = tag info \<and> abstract info' = abstract info \<and> subs info' = subs info
      \<and> base info' = base info
      \<and> (mixed info' = mixed info \<or> (mixed info \<noteq> Some True \<and> mixed info' = Some True))
      \<and> (kind info' = kind info \<or> (kind info = None \<and> kind info' \<noteq> None)))"

definition tableGrows :: "table \<Rightarrow> table \<Rightarrow> bool" where
  "tableGrows definitions definitions' =
     list_all2 (\<lambda>p q. fst q = fst p \<and> grows (snd p) (snd q)) definitions definitions'"

text \<open>The table after one scan, and after \<open>n\<close> scans: \<open>(scan ^^ n) definitions\<close>.\<close>

definition scan :: "table \<Rightarrow> table" where
  "scan definitions = fst (infer definitions)"

lemma grows_refl: "grows info info"
  by (simp add: grows_def)

lemma grows_trans: "grows a b \<Longrightarrow> grows b c \<Longrightarrow> grows a c"
  by (auto simp: grows_def)

lemma tableGrows_refl: "tableGrows definitions definitions"
  by (simp add: tableGrows_def list_all2_refl grows_refl)

lemma tableGrows_trans:
  assumes "tableGrows a b" and "tableGrows b c"
  shows "tableGrows a c"
proof -
  have "list_all2 (\<lambda>p q. fst q = fst p \<and> grows (snd p) (snd q)) a c"
    by (rule list_all2_trans [OF _ assms [unfolded tableGrows_def]]) (auto intro: grows_trans)
  then show ?thesis by (simp add: tableGrows_def)
qed

lemma tableGrows_update:
  "map_of definitions k = Some old \<Longrightarrow> grows old v \<Longrightarrow>
   tableGrows definitions (AList.update k v definitions)"
  by (induction definitions)
     (auto simp: tableGrows_def grows_refl list_all2_refl split: if_splits)

lemma tableGrows_map_of:
  "tableGrows definitions definitions' \<Longrightarrow> map_of definitions name = Some info \<Longrightarrow>
   \<exists>info'. map_of definitions' name = Some info' \<and> grows info info'"
  unfolding tableGrows_def
  by (induction definitions definitions' rule: list_all2_induct) (auto split: if_splits)


lemma mixedFromOther_grows:
  "mixedFromOther info otherInfo = (info', c) \<Longrightarrow> mixed info \<noteq> Some True \<Longrightarrow> grows info info'"
  by (auto simp: mixedFromOther_def grows_def split: if_splits)

lemma kindFromOther_grows:
  "kindFromOther other info otherInfo = (info', c, w) \<Longrightarrow> grows info info'"
  by (cases "kind otherInfo") (auto simp: kindFromOther_def grows_def split: if_splits)

lemma mixedIfUnknown_grows:
  "mixedIfUnknown other info otherInfo = (info', c, w) \<Longrightarrow> grows info info'"
  by (auto simp: mixedIfUnknown_def grows_def split: if_splits)

lemma inferRecord_grows:
  assumes "inferRecord definitions name info = (info', c, w)"
  shows "grows info info'"
proof (cases "mixed info = Some True \<or> otherOf info = None \<or> otherOf info = Some []
    \<or> (\<exists>other. otherOf info = Some other \<and> map_of definitions (bare other) = None)")
  case True
  with assms have "info' = info"
    by (auto simp: inferRecord_def split: if_splits)
  then show ?thesis by (simp add: grows_refl)
next
  case False
  then obtain other otherInfo where o: "otherOf info = Some other" "other \<noteq> []"
    "map_of definitions (bare other) = Some otherInfo" and m: "mixed info \<noteq> Some True"
    by auto
  obtain info1 c1 where s1: "mixedFromOther info otherInfo = (info1, c1)"
    by (cases "mixedFromOther info otherInfo") auto
  obtain info2 c2 w2 where s2:
    "kindFromOther other info1 (if bare other = name then info1 else otherInfo) = (info2, c2, w2)"
    by (cases "kindFromOther other info1 (if bare other = name then info1 else otherInfo)") auto
  obtain info3 c3 w3 where s3:
    "mixedIfUnknown other info2 (if bare other = name then info2 else otherInfo) = (info3, c3, w3)"
    by (cases "mixedIfUnknown other info2 (if bare other = name then info2 else otherInfo)") auto
  from assms o m s1 s2 s3 have r: "info' = info3"
    by (simp add: inferRecord_def)
  from mixedFromOther_grows [OF s1 m] kindFromOther_grows [OF s2] mixedIfUnknown_grows [OF s3] r
  show ?thesis by (blast intro: grows_trans)
qed

lemma inferStep_grows:
  assumes "inferStep name (definitions, changed, out) = (definitions', changed', out')"
  shows "tableGrows definitions definitions'"
proof (cases "map_of definitions name")
  case None
  with assms show ?thesis by (simp add: inferStep_def tableGrows_refl)
next
  case (Some info)
  obtain info' c w where r: "inferRecord definitions name info = (info', c, w)"
    by (cases "inferRecord definitions name info") auto
  from assms Some r have "definitions' = AList.update name info' definitions"
    by (simp add: inferStep_def)
  with tableGrows_update [OF Some inferRecord_grows [OF r]] show ?thesis by simp
qed

lemma fold_inferStep_grows:
  "fold inferStep names (definitions, changed, out) = (definitions', changed', out') \<Longrightarrow>
   tableGrows definitions definitions'"
proof (induction names arbitrary: definitions changed out)
  case Nil
  then show ?case by (simp add: tableGrows_refl)
next
  case (Cons name names)
  obtain d1 c1 o1 where s: "inferStep name (definitions, changed, out) = (d1, c1, o1)"
    by (cases "inferStep name (definitions, changed, out)") auto
  with Cons.prems have "fold inferStep names (d1, c1, o1) = (definitions', changed', out')"
    by simp
  from Cons.IH [OF this] inferStep_grows [OF s] show ?case by (blast intro: tableGrows_trans)
qed

lemma scan_grows: "tableGrows definitions (scan definitions)"
proof -
  obtain d c w where i: "infer definitions = (d, c, w)"
    by (cases "infer definitions") auto
  then have "fold inferStep (map fst definitions) (definitions, 0, []) = (d, c, w)"
    by (simp add: infer_def)
  from fold_inferStep_grows [OF this] i show ?thesis by (simp add: scan_def)
qed

lemma scans_grow: "tableGrows ((scan ^^ m) definitions) ((scan ^^ (m + n)) definitions)"
proof (induction n)
  case 0
  show ?case by (simp add: tableGrows_refl)
next
  case (Suc n)
  have "tableGrows ((scan ^^ (m + n)) definitions) (scan ((scan ^^ (m + n)) definitions))"
    by (rule scan_grows)
  with Suc show ?case by (auto intro: tableGrows_trans)
qed

text \<open>The loop of \<^verbatim>\<open>resolve\<close> ends on the table that some number of scans gives.\<close>

lemma resolveLoop_scans:
  "resolveLoop i scans out definitions = (definitions', i', scans', out') \<Longrightarrow>
   \<exists>k. definitions' = (scan ^^ Suc k) definitions \<and> i' = i + Suc k"
proof (induction i scans out definitions rule: resolveLoop.induct)
  case (1 i scans out definitions)
  obtain d c w where inf: "infer definitions = (d, c, w)"
    by (cases "infer definitions") auto
  show ?case
  proof (cases "c = 0")
    case True
    with "1.prems" inf have "definitions' = d" "i' = i + 1"
      by (simp_all add: resolveLoop.simps [of i scans out definitions])
    with inf have "definitions' = (scan ^^ Suc 0) definitions \<and> i' = i + Suc 0"
      by (simp add: scan_def)
    then show ?thesis by blast
  next
    case False
    with "1.prems" inf have
      "resolveLoop (i + 1) (scans @ [c]) (out @ w @ [roundLine (i + 1) c]) d = (definitions', i', scans', out')"
      by (simp add: resolveLoop.simps [of i scans out definitions])
    from "1.IH" [OF inf [symmetric] refl False this] obtain k where
      "definitions' = (scan ^^ Suc k) d" "i' = i + 1 + Suc k" by auto
    with inf have "definitions' = (scan ^^ Suc (Suc k)) definitions \<and> i' = i + Suc (Suc k)"
      by (simp add: scan_def funpow_swap1)
    then show ?thesis by blast
  qed
qed

text \<open>A run of \<^verbatim>\<open>SchemaAnalysis.resolve\<close> that returns is a run of \<^verbatim>\<open>Analysis.resolve\<close>.\<close>

lemma resolveLoopSA_resolveLoop:
  "resolveLoopSA i scans out definitions = Inr (definitions', i', scans', out') \<Longrightarrow>
   \<exists>lines. resolveLoop i scans out0 definitions = (definitions', i', scans', lines)"
proof (induction i scans out definitions arbitrary: out0 rule: resolveLoopSA.induct)
  case (1 i scans out definitions)
  from "1.prems" obtain d c where inf: "inferSA definitions = Inr (d, c)"
    by (cases "inferSA definitions") (auto simp: resolveLoopSA.simps [of i scans out definitions])
  from inferSA_infer [OF inf] obtain w where inf': "infer definitions = (d, c, w)"
    by blast
  show ?case
  proof (cases "c = 0")
    case True
    with "1.prems" inf have "definitions' = d" "i' = i + 1" "scans' = scans @ [c]"
      by (simp_all add: resolveLoopSA.simps [of i scans out definitions])
    with True inf' show ?thesis
      by (simp add: resolveLoop.simps [of i scans out0 definitions])
  next
    case False
    with "1.prems" inf have
      "resolveLoopSA (i + 1) (scans @ [c]) (out @ [roundLine (i + 1) c]) d = Inr (definitions', i', scans', out')"
      by (simp add: resolveLoopSA.simps [of i scans out definitions])
    from "1.IH" [OF inf refl False this, of "out0 @ w @ [roundLine (i + 1) c]"] False inf'
    show ?thesis
      by (simp add: resolveLoop.simps [of i scans out0 definitions])
  qed
qed

lemma resolveSA_resolve:
  "resolveSA definitions = Inr (definitions', i, scans, out) \<Longrightarrow>
   \<exists>lines. resolve definitions = (definitions', i, scans, lines)"
  unfolding resolveSA_def resolve_def by (rule resolveLoopSA_resolveLoop)

lemma inferSA_scan: "inferSA definitions = Inr (definitions', changed) \<Longrightarrow> definitions' = scan definitions"
  using inferSA_infer [of definitions definitions' changed] by (auto simp: scan_def)

text \<open>
  Tables for the examples. In \<open>chainTable\<close>, \<open>q\<close> extends \<open>p\<close> and \<open>r\<close> is in the
  substitution group \<open>tei:q\<close>; \<open>r\<close> comes before \<open>q\<close>, so it takes two scans to reach
  it. \<open>exampleTable\<close> has one more record, \<open>s\<close>, which refers to a name that is not
  defined.
\<close>

definition chainTable :: table where
  "chainTable =
     [(''r'', \<lparr>tag = ''element'', abstract = False, mixed = Some False, subs = Some ''tei:q'',
               kind = None, base = None\<rparr>),
      (''q'', \<lparr>tag = ''element'', abstract = False, mixed = Some False, subs = None,
               kind = None, base = Some ''p''\<rparr>),
      (''p'', \<lparr>tag = ''element'', abstract = False, mixed = Some True, subs = None,
               kind = Some ''complex'', base = None\<rparr>)]"

definition exampleTable :: table where
  "exampleTable =
     chainTable @
     [(''s'', \<lparr>tag = ''element'', abstract = False, mixed = Some False, subs = Some ''missing'',
               kind = None, base = None\<rparr>)]"

text \<open>
  Claim C4. Resolution is monotone on every record. Take the table after any number
  \<open>m\<close> of scans and a record of it: after any further \<open>n\<close> scans the name still has
  a record, its \<open>mixed\<close> is true if it was true, and its \<open>kind\<close> is the same if it was
  set. \<^verbatim>\<open>Analysis.resolve\<close> ends on such a table, every scan of
  \<^verbatim>\<open>SchemaAnalysis.resolve\<close> that returns gives the table \<^const>\<open>scan\<close> gives, and a
  run of it that returns ends on the same table.
\<close>

theorem resolution_monotone:
  assumes "map_of ((scan ^^ m) definitions) name = Some info"
  shows "(\<exists>info'. map_of ((scan ^^ (m + n)) definitions) name = Some info'
            \<and> (mixed info = Some True \<longrightarrow> mixed info' = Some True)
            \<and> (\<forall>k. kind info = Some k \<longrightarrow> kind info' = Some k))
         \<and> (\<exists>k. fst (resolve definitions) = (scan ^^ Suc k) definitions)
         \<and> (\<forall>d d' c. inferSA d = Inr (d', c) \<longrightarrow> d' = scan d)
         \<and> (\<forall>r. resolveSA definitions = Inr r \<longrightarrow> fst r = fst (resolve definitions))"
proof (intro conjI)
  from tableGrows_map_of [OF scans_grow assms, of n] obtain info' where
    "map_of ((scan ^^ (m + n)) definitions) name = Some info'" "grows info info'"
    by blast
  then show "\<exists>info'. map_of ((scan ^^ (m + n)) definitions) name = Some info'
      \<and> (mixed info = Some True \<longrightarrow> mixed info' = Some True)
      \<and> (\<forall>k. kind info = Some k \<longrightarrow> kind info' = Some k)"
    by (auto simp: grows_def)
next
  obtain d i sc out where r: "resolve definitions = (d, i, sc, out)"
    by (cases "resolve definitions") auto
  then have "resolveLoop 0 [] [] definitions = (d, i, sc, out)"
    by (simp add: resolve_def)
  from resolveLoop_scans [OF this] r
  show "\<exists>k. fst (resolve definitions) = (scan ^^ Suc k) definitions"
    by auto
next
  show "\<forall>d d' c. inferSA d = Inr (d', c) \<longrightarrow> d' = scan d"
    by (blast dest: inferSA_scan)
next
  show "\<forall>r. resolveSA definitions = Inr r \<longrightarrow> fst r = fst (resolve definitions)"
  proof (intro allI impI)
    fix r
    assume a: "resolveSA definitions = Inr r"
    obtain d i sc out where "r = (d, i, sc, out)"
      by (cases r) auto
    with a resolveSA_resolve [of definitions d i sc out] show "fst r = fst (resolve definitions)"
      by auto
  qed
qed

theorem resolution_monotone_witness:
  "(\<exists>info'. map_of ((scan ^^ 2) chainTable) ''q'' = Some info'
      \<and> mixed info' = Some True \<and> kind info' = Some ''complex'')
   \<and> (\<exists>d' c. inferSA chainTable = Inr (d', c) \<and> d' = scan chainTable)
   \<and> (\<exists>r. resolveSA chainTable = Inr r \<and> fst r = fst (resolve chainTable))"
proof -
  have h: "map_of ((scan ^^ Suc 0) chainTable) ''q''
      = Some \<lparr>tag = ''element'', abstract = False, mixed = Some True, subs = None,
               kind = Some ''complex'', base = Some ''p''\<rparr>"
    by code_simp
  have "case inferSA chainTable of Inl e \<Rightarrow> False | Inr r \<Rightarrow> True"
    by code_simp
  then obtain d' c where i: "inferSA chainTable = Inr (d', c)"
    by (cases "inferSA chainTable") auto
  have "case resolveSA chainTable of Inl e \<Rightarrow> False | Inr r \<Rightarrow> True"
    by code_simp
  then obtain r where r: "resolveSA chainTable = Inr r"
    by (cases "resolveSA chainTable") auto
  note m = resolution_monotone [OF h, of "Suc 0"]
  from m have a: "\<exists>info'. map_of ((scan ^^ 2) chainTable) ''q'' = Some info'
      \<and> mixed info' = Some True \<and> kind info' = Some ''complex''"
    by (simp add: numeral_2_eq_2)
  from m i have b: "\<exists>d' c. inferSA chainTable = Inr (d', c) \<and> d' = scan chainTable"
    by blast
  from m r have c: "\<exists>r. resolveSA chainTable = Inr r \<and> fst r = fst (resolve chainTable)"
    by blast
  from a b c show ?thesis by blast
qed

section \<open>Scans without changes, and the number of rounds\<close>

lemma inferRecord_zero:
  assumes "inferRecord definitions name info = (info', 0, w)"
  shows "info' = info"
proof -
  from inferRecord_grows [OF assms] have g: "grows info info'" .
  from inferRecord_pending [OF assms] have "pending info' = pending info" by simp
  with g have "mixed info' = mixed info \<and> kind info' = kind info"
    by (auto simp: grows_def pending_def split: if_splits)
  with g show ?thesis by (simp add: grows_def)
qed

lemma inferStep_changed:
  assumes "inferStep name (definitions, changed, out) = (definitions', changed', out')"
  shows "changed \<le> changed'" and "changed' = changed \<Longrightarrow> definitions' = definitions"
proof -
  show "changed \<le> changed'"
    using assms by (auto simp: inferStep_def split: option.splits prod.splits)
  assume eq: "changed' = changed"
  show "definitions' = definitions"
  proof (cases "map_of definitions name")
    case None
    with assms show ?thesis by (simp add: inferStep_def)
  next
    case (Some info)
    obtain info' c w where r: "inferRecord definitions name info = (info', c, w)"
      by (cases "inferRecord definitions name info") auto
    from assms Some r have e: "definitions' = AList.update name info' definitions" "changed' = changed + c"
      by (simp_all add: inferStep_def)
    with eq have "c = 0" by simp
    with r inferRecord_zero have "info' = info" by blast
    with e Some show ?thesis by (simp add: update_triv)
  qed
qed

lemma fold_inferStep_changed:
  "fold inferStep names (definitions, changed, out) = (definitions', changed', out') \<Longrightarrow>
   changed \<le> changed' \<and> (changed' = changed \<longrightarrow> definitions' = definitions)"
proof (induction names arbitrary: definitions changed out)
  case Nil
  then show ?case by simp
next
  case (Cons name names)
  obtain d1 c1 o1 where s: "inferStep name (definitions, changed, out) = (d1, c1, o1)"
    by (cases "inferStep name (definitions, changed, out)") auto
  with Cons.prems have "fold inferStep names (d1, c1, o1) = (definitions', changed', out')"
    by simp
  from Cons.IH [OF this] inferStep_changed [OF s] show ?case by auto
qed

lemma infer_zero: "infer definitions = (definitions', 0, w) \<Longrightarrow> definitions' = definitions"
  using fold_inferStep_changed [of "map fst definitions" definitions 0 "[]" definitions' 0 w]
  by (simp add: infer_def)

lemma pending_le: "pending info \<le> 2"
  by (simp add: pending_def)

lemma unresolved_le: "unresolved definitions \<le> 2 * length definitions"
proof (induction definitions)
  case Nil
  show ?case by (simp add: unresolved_def)
next
  case (Cons p definitions)
  from pending_le [of "snd p"] Cons show ?case by (simp add: unresolved_def)
qed

text \<open>A table where nothing is known: no record has \<open>mixed\<close> true or a \<open>kind\<close>.\<close>

definition nothingKnown :: "table \<Rightarrow> bool" where
  "nothingKnown definitions = list_all (\<lambda>p. mixed (snd p) \<noteq> Some True \<and> kind (snd p) = None) definitions"

lemma unresolved_full: "unresolved definitions = 2 * length definitions \<Longrightarrow> nothingKnown definitions"
proof (induction definitions)
  case Nil
  show ?case by (simp add: nothingKnown_def)
next
  case (Cons p definitions)
  from Cons.prems pending_le [of "snd p"] unresolved_le [of definitions]
  have "pending (snd p) = 2" "unresolved definitions = 2 * length definitions"
    by (simp_all add: unresolved_def)
  with Cons.IH show ?case
    by (auto simp: nothingKnown_def pending_def split: if_splits)
qed

lemma nothingKnown_map_of:
  "nothingKnown definitions \<Longrightarrow> map_of definitions name = Some info \<Longrightarrow>
   mixed info \<noteq> Some True \<and> kind info = None"
  by (auto simp: nothingKnown_def list_all_iff dest!: map_of_SomeD)

lemma inferRecord_nothingKnown:
  assumes "nothingKnown definitions" and "map_of definitions name = Some info"
  shows "\<exists>w. inferRecord definitions name info = (info, 0, w)"
proof (cases "otherOf info = None \<or> otherOf info = Some []
    \<or> (\<exists>other. otherOf info = Some other \<and> map_of definitions (bare other) = None)")
  case True
  then show ?thesis by (auto simp: inferRecord_def)
next
  case False
  then obtain other otherInfo where o: "otherOf info = Some other" "other \<noteq> []"
    "map_of definitions (bare other) = Some otherInfo"
    by auto
  from nothingKnown_map_of [OF assms] nothingKnown_map_of [OF assms(1) o(3)] o
  show ?thesis
    by (simp add: inferRecord_def mixedFromOther_def kindFromOther_def mixedIfUnknown_def)
qed

lemma inferStep_nothingKnown:
  assumes "nothingKnown definitions"
  shows "\<exists>out'. inferStep name (definitions, changed, out) = (definitions, changed, out')"
proof (cases "map_of definitions name")
  case None
  then show ?thesis by (simp add: inferStep_def)
next
  case (Some info)
  from inferRecord_nothingKnown [OF assms Some] obtain w where
    "inferRecord definitions name info = (info, 0, w)" by blast
  with Some show ?thesis by (simp add: inferStep_def update_triv)
qed

lemma fold_inferStep_nothingKnown:
  "nothingKnown definitions \<Longrightarrow>
   \<exists>out'. fold inferStep names (definitions, changed, out) = (definitions, changed, out')"
proof (induction names arbitrary: out)
  case Nil
  show ?case by simp
next
  case (Cons name names)
  from inferStep_nothingKnown [OF Cons.prems, of name changed out] obtain o1 where
    "inferStep name (definitions, changed, out) = (definitions, changed, o1)" by blast
  with Cons.IH [OF Cons.prems, of o1] show ?case by simp
qed

lemma infer_nothingKnown: "nothingKnown definitions \<Longrightarrow> \<exists>w. infer definitions = (definitions, 0, w)"
  unfolding infer_def by (rule fold_inferStep_nothingKnown)

text \<open>
  What the loop returns: the scans before the last each report a change, the last reports
  none and leaves the table as it found it, and the changes add up to the fields resolved.
\<close>

lemma resolveLoop_result:
  "resolveLoop i scans out definitions = (definitions', i', scans', out') \<Longrightarrow>
   \<exists>cs w. scans' = scans @ cs @ [0] \<and> (\<forall>c \<in> set cs. 0 < c) \<and> i' = i + length cs + 1
     \<and> sum_list cs + unresolved definitions' = unresolved definitions
     \<and> infer definitions' = (definitions', 0, w)
     \<and> (cs = [] \<longrightarrow> definitions' = definitions \<and> out' = out @ w)"
proof (induction i scans out definitions rule: resolveLoop.induct)
  case (1 i scans out definitions)
  obtain d c w where inf: "infer definitions = (d, c, w)"
    by (cases "infer definitions") auto
  show ?case
  proof (cases "c = 0")
    case True
    with inf infer_zero have d: "d = definitions" by blast
    from "1.prems" inf True have "definitions' = d" "i' = i + 1" "scans' = scans @ [0]" "out' = out @ w"
      by (simp_all add: resolveLoop.simps [of i scans out definitions])
    with d inf True have "scans' = scans @ [] @ [0] \<and> (\<forall>c \<in> set []. 0 < (c::nat)) \<and> i' = i + length ([]::nat list) + 1
      \<and> sum_list [] + unresolved definitions' = unresolved definitions
      \<and> infer definitions' = (definitions', 0, w)
      \<and> (([]::nat list) = [] \<longrightarrow> definitions' = definitions \<and> out' = out @ w)"
      by simp
    then show ?thesis by blast
  next
    case False
    with "1.prems" inf have
      "resolveLoop (i + 1) (scans @ [c]) (out @ w @ [roundLine (i + 1) c]) d = (definitions', i', scans', out')"
      by (simp add: resolveLoop.simps [of i scans out definitions])
    from "1.IH" [OF inf [symmetric] refl False this] obtain cs w' where r:
      "scans' = (scans @ [c]) @ cs @ [0]" "\<forall>c \<in> set cs. 0 < c" "i' = i + 1 + length cs + 1"
      "sum_list cs + unresolved definitions' = unresolved d" "infer definitions' = (definitions', 0, w')"
      by blast
    from infer_unresolved [OF inf] r False
    have "scans' = scans @ (c # cs) @ [0] \<and> (\<forall>x \<in> set (c # cs). 0 < x) \<and> i' = i + length (c # cs) + 1
      \<and> sum_list (c # cs) + unresolved definitions' = unresolved definitions
      \<and> infer definitions' = (definitions', 0, w')
      \<and> (c # cs = [] \<longrightarrow> definitions' = definitions \<and> out' = out @ w')"
      by simp
    then show ?thesis by blast
  qed
qed

lemma sum_list_pos_length: "\<forall>c \<in> set cs. 0 < c \<Longrightarrow> length cs \<le> sum_list (cs :: nat list)"
  by (induction cs) auto

lemma resolve_nothingKnown:
  assumes "nothingKnown definitions"
  shows "\<exists>w. resolve definitions = (definitions, 1, [0], w)"
proof -
  from infer_nothingKnown [OF assms] obtain w where "infer definitions = (definitions, 0, w)"
    by blast
  then show ?thesis
    by (simp add: resolve_def resolveLoop.simps [of 0 "[]" "[]" definitions])
qed

lemma resolveLoopSA_final:
  "resolveLoopSA i scans out definitions = Inr (definitions', i', scans', out') \<Longrightarrow>
   inferSA definitions' = Inr (definitions', 0) \<and> (scans' = scans @ [0] \<longrightarrow> out' = out)"
proof (induction i scans out definitions rule: resolveLoopSA.induct)
  case (1 i scans out definitions)
  from "1.prems" obtain d c where inf: "inferSA definitions = Inr (d, c)"
    by (cases "inferSA definitions") (auto simp: resolveLoopSA.simps [of i scans out definitions])
  show ?case
  proof (cases "c = 0")
    case True
    from inferSA_infer [OF inf] True infer_zero have "d = definitions" by blast
    moreover from "1.prems" inf True have "definitions' = d" "out' = out"
      by (simp_all add: resolveLoopSA.simps [of i scans out definitions])
    ultimately show ?thesis using inf True by simp
  next
    case False
    with "1.prems" inf have step:
      "resolveLoopSA (i + 1) (scans @ [c]) (out @ [roundLine (i + 1) c]) d = Inr (definitions', i', scans', out')"
      by (simp add: resolveLoopSA.simps [of i scans out definitions])
    from resolveLoopSA_resolveLoop [OF step, of "[]"] obtain lines where
      "resolveLoop (i + 1) (scans @ [c]) [] d = (definitions', i', scans', lines)" by blast
    from resolveLoop_result [OF this] False have "scans' \<noteq> scans @ [0]" by auto
    with "1.IH" [OF inf refl False step] show ?thesis by simp
  qed
qed

section \<open>Termination and the bound on the rounds\<close>

text \<open>
  Claim C5 as stated fails on the empty table, which is acyclic: the loop always makes
  the round that finds zero changes, so it makes one round, and twice the number of
  records is zero.
\<close>

theorem empty_table_one_round_counterexample:
  "resolve [] = ([], 1, [0], []) \<and> resolveSA [] = Inr ([], 1, [0], [])
   \<and> \<not> fst (snd (resolve [])) \<le> 2 * length ([] :: table)"
  by code_simp

text \<open>
  Claim C5, amended. The loop of \<^verbatim>\<open>resolve\<close> halts on every table:
  \<^const>\<open>resolveLoop\<close> and \<^const>\<open>resolveLoopSA\<close> are total functions, defined with a
  proof that each round reporting a change leaves fewer unresolved fields, whatever the
  references are (acyclic, cyclic or dangling). The run makes \<open>i\<close> rounds; all but the
  last report at least one change and the last reports none; the changes of all rounds
  together are at most twice the number of records, so the rounds are at most twice the
  number of records plus one, and at most twice the number of records for every table
  that is not empty. A run of \<^verbatim>\<open>SchemaAnalysis.resolve\<close> that returns makes the same
  rounds.
\<close>

theorem resolve_halts_bounded:
  "\<exists>definitions' i scans out.
     resolve definitions = (definitions', i, scans, out)
     \<and> i = length scans \<and> scans \<noteq> [] \<and> last scans = 0 \<and> (\<forall>c \<in> set (butlast scans). 0 < c)
     \<and> sum_list scans \<le> 2 * length definitions
     \<and> i \<le> 2 * length definitions + 1
     \<and> (definitions \<noteq> [] \<longrightarrow> i \<le> 2 * length definitions)
     \<and> (\<forall>r. resolveSA definitions = Inr r \<longrightarrow> fst (snd r) = i \<and> fst (snd (snd r)) = scans)"
proof -
  obtain d i sc out where r: "resolve definitions = (d, i, sc, out)"
    by (cases "resolve definitions") auto
  then have "resolveLoop 0 [] [] definitions = (d, i, sc, out)"
    by (simp add: resolve_def)
  from resolveLoop_result [OF this] obtain cs where cs: "sc = cs @ [0]" "\<forall>c \<in> set cs. 0 < c"
    "i = length cs + 1" "sum_list cs + unresolved d = unresolved definitions"
    by auto
  from cs sum_list_pos_length [OF cs(2)] unresolved_le [of definitions]
  have b: "length cs \<le> sum_list cs" "sum_list cs \<le> unresolved definitions"
    "unresolved definitions \<le> 2 * length definitions"
    by simp_all
  have ne: "i \<le> 2 * length definitions" if "definitions \<noteq> []"
  proof (cases "unresolved definitions = 2 * length definitions")
    case True
    from resolve_nothingKnown [OF unresolved_full [OF True]] r have "i = 1" by auto
    with that show ?thesis by (cases definitions) auto
  next
    case False
    with b cs show ?thesis by simp
  qed
  have sa: "\<forall>r. resolveSA definitions = Inr r \<longrightarrow> fst (snd r) = i \<and> fst (snd (snd r)) = sc"
  proof (intro allI impI)
    fix x
    assume a: "resolveSA definitions = Inr x"
    obtain d' i' sc' out' where "x = (d', i', sc', out')"
      by (cases x) auto
    with a resolveSA_resolve [of definitions d' i' sc' out'] r
    show "fst (snd x) = i \<and> fst (snd (snd x)) = sc"
      by auto
  qed
  from r cs b ne sa have "resolve definitions = (d, i, sc, out)
     \<and> i = length sc \<and> sc \<noteq> [] \<and> last sc = 0 \<and> (\<forall>c \<in> set (butlast sc). 0 < c)
     \<and> sum_list sc \<le> 2 * length definitions
     \<and> i \<le> 2 * length definitions + 1
     \<and> (definitions \<noteq> [] \<longrightarrow> i \<le> 2 * length definitions)
     \<and> (\<forall>r. resolveSA definitions = Inr r \<longrightarrow> fst (snd r) = i \<and> fst (snd (snd r)) = sc)"
    by simp
  then show ?thesis by blast
qed

theorem resolve_halts_bounded_witness:
  "chainTable \<noteq> [] \<and> fst (snd (resolve chainTable)) \<le> 2 * length chainTable
   \<and> (\<exists>r. resolveSA chainTable = Inr r \<and> fst (snd r) \<le> 2 * length chainTable)"
proof -
  have ne: "chainTable \<noteq> []"
    by (simp add: chainTable_def)
  have "case resolveSA chainTable of Inl e \<Rightarrow> False | Inr r \<Rightarrow> True"
    by code_simp
  then obtain r where r: "resolveSA chainTable = Inr r"
    by (cases "resolveSA chainTable") auto
  from resolve_halts_bounded [of chainTable] ne r show ?thesis
    by auto
qed

section \<open>Idempotence\<close>

text \<open>
  Claim C6. On the table \<open>t\<close> that \<^verbatim>\<open>resolve\<close> ends on, one more scan reports zero
  changes and returns \<open>t\<close> itself, so running \<^verbatim>\<open>resolve\<close> again makes exactly one
  scan (\<open>i = 1\<close>, with 0 changes) and returns \<open>t\<close>, printing only the warnings of that
  scan. The same holds for \<^verbatim>\<open>SchemaAnalysis.resolve\<close> whenever its first run returns.
\<close>

theorem resolve_idempotent:
  "\<exists>t i scans out w.
     resolve definitions = (t, i, scans, out)
     \<and> infer t = (t, 0, w) \<and> resolve t = (t, 1, [0], w)
     \<and> (\<forall>r. resolveSA definitions = Inr r \<longrightarrow>
           fst r = t \<and> inferSA t = Inr (t, 0) \<and> resolveSA t = Inr (t, 1, [0], []))"
proof -
  obtain t i sc out where r: "resolve definitions = (t, i, sc, out)"
    by (cases "resolve definitions") auto
  then have "resolveLoop 0 [] [] definitions = (t, i, sc, out)"
    by (simp add: resolve_def)
  from resolveLoop_result [OF this] obtain w where w: "infer t = (t, 0, w)"
    by auto
  then have again: "resolve t = (t, 1, [0], w)"
    by (simp add: resolve_def resolveLoop.simps [of 0 "[]" "[]" t])
  have sa: "\<forall>r. resolveSA definitions = Inr r \<longrightarrow>
      fst r = t \<and> inferSA t = Inr (t, 0) \<and> resolveSA t = Inr (t, 1, [0], [])"
  proof (intro allI impI)
    fix x
    assume a: "resolveSA definitions = Inr x"
    obtain d' i' sc' out' where x: "x = (d', i', sc', out')"
      by (cases x) auto
    from a x resolveSA_resolve [of definitions d' i' sc' out'] r have d: "d' = t"
      by auto
    from a x have "resolveLoopSA 0 [] [] definitions = Inr (d', i', sc', out')"
      by (simp add: resolveSA_def)
    from resolveLoopSA_final [OF this] d have z: "inferSA t = Inr (t, 0)"
      by simp
    then have "resolveSA t = Inr (t, 1, [0], [])"
      by (simp add: resolveSA_def resolveLoopSA.simps [of 0 "[]" "[]" t])
    with x d z show "fst x = t \<and> inferSA t = Inr (t, 0) \<and> resolveSA t = Inr (t, 1, [0], [])"
      by simp
  qed
  from r w again sa show ?thesis by blast
qed

theorem resolve_idempotent_witness:
  "resolveSA (fst (resolve chainTable)) = Inr (fst (resolve chainTable), 1, [0], [])
   \<and> fst (resolve (fst (resolve chainTable))) = fst (resolve chainTable)"
proof -
  have "case resolveSA chainTable of Inl e \<Rightarrow> False | Inr r \<Rightarrow> True"
    by code_simp
  then obtain r where r: "resolveSA chainTable = Inr r"
    by (cases "resolveSA chainTable") auto
  from resolve_idempotent [of chainTable] r show ?thesis
    by auto
qed

section \<open>Dangling references\<close>

text \<open>
  The record \<open>info\<close> under \<open>name\<close> is one whose reference \<open>other\<close> the scan consults
  (its \<open>mixed\<close> is not yet true, \<open>other\<close> is a non-empty \<open>base\<close> or \<open>subs\<close>) and the
  bare name of \<open>other\<close> is not a key.
\<close>

definition danglingAt :: "table \<Rightarrow> string \<Rightarrow> info \<Rightarrow> string \<Rightarrow> bool" where
  "danglingAt definitions name info other =
     (map_of definitions name = Some info \<and> mixed info \<noteq> Some True
      \<and> otherOf info = Some other \<and> other \<noteq> [] \<and> map_of definitions (bare other) = None)"

lemma inferRecord_dangling:
  "danglingAt definitions name info other \<Longrightarrow>
   inferRecord definitions name info = (info, 0, [''Warning: '' @ other @ '' is not defined.''])"
  by (simp add: danglingAt_def inferRecord_def)

lemma inferRecordSA_dangling:
  "danglingAt definitions name info other \<Longrightarrow>
   inferRecordSA definitions name info = Inl (KeyError (bare other))"
  by (simp add: danglingAt_def inferRecordSA_def)

lemma inferStep_dangling:
  assumes "danglingAt definitions name info other"
    and "inferStep nm (definitions, changed, out) = (definitions', changed', out')"
  shows "danglingAt definitions' name info other"
proof (cases "map_of definitions nm")
  case None
  with assms show ?thesis by (simp add: inferStep_def)
next
  case (Some i)
  obtain i' c w where r: "inferRecord definitions nm i = (i', c, w)"
    by (cases "inferRecord definitions nm i") auto
  from assms(2) Some r have e: "definitions' = AList.update nm i' definitions"
    by (simp add: inferStep_def)
  show ?thesis
  proof (cases "nm = name")
    case True
    with assms(1) Some have "i = info" by (simp add: danglingAt_def)
    with r True inferRecord_dangling [OF assms(1)] have "i' = info" by simp
    with e True assms(1) show ?thesis by (simp add: danglingAt_def update_triv)
  next
    case False
    from Some assms(1) have "bare other \<noteq> nm" by (auto simp: danglingAt_def)
    with False e assms(1) show ?thesis by (simp add: danglingAt_def update_conv')
  qed
qed

lemma fold_inferStep_dangling:
  "danglingAt definitions name info other \<Longrightarrow>
   fold inferStep names (definitions, changed, out) = (definitions', changed', out') \<Longrightarrow>
   danglingAt definitions' name info other"
proof (induction names arbitrary: definitions changed out)
  case Nil
  then show ?case by simp
next
  case (Cons nm names)
  obtain d1 c1 o1 where s: "inferStep nm (definitions, changed, out) = (d1, c1, o1)"
    by (cases "inferStep nm (definitions, changed, out)") auto
  with Cons.prems have "fold inferStep names (d1, c1, o1) = (definitions', changed', out')"
    by simp
  from Cons.IH [OF inferStep_dangling [OF Cons.prems(1) s] this] show ?case .
qed

lemma scan_dangling:
  assumes "danglingAt definitions name info other"
  shows "danglingAt (scan definitions) name info other"
proof -
  obtain d c w where i: "infer definitions = (d, c, w)"
    by (cases "infer definitions") auto
  then have "fold inferStep (map fst definitions) (definitions, 0, []) = (d, c, w)"
    by (simp add: infer_def)
  from fold_inferStep_dangling [OF assms this] i show ?thesis by (simp add: scan_def)
qed

lemma scans_dangling:
  "danglingAt definitions name info other \<Longrightarrow> danglingAt ((scan ^^ k) definitions) name info other"
  by (induction k) (simp_all add: scan_dangling)

text \<open>Each scan prints the warning for such a record.\<close>

lemma fold_inferStep_warns:
  "danglingAt definitions name info other \<Longrightarrow> name \<in> set names \<or> wn \<in> set out \<Longrightarrow>
   wn = ''Warning: '' @ other @ '' is not defined.'' \<Longrightarrow>
   fold inferStep names (definitions, changed, out) = (definitions', changed', out') \<Longrightarrow>
   wn \<in> set out'"
proof (induction names arbitrary: definitions changed out)
  case Nil
  then show ?case by simp
next
  case (Cons nm names)
  obtain d1 c1 o1 where s: "inferStep nm (definitions, changed, out) = (d1, c1, o1)"
    by (cases "inferStep nm (definitions, changed, out)") auto
  with Cons.prems have f: "fold inferStep names (d1, c1, o1) = (definitions', changed', out')"
    by simp
  have "name \<in> set names \<or> wn \<in> set o1"
  proof (cases "nm = name")
    case True
    with Cons.prems(1) s inferRecord_dangling [OF Cons.prems(1)] Cons.prems(3)
    show ?thesis by (auto simp: inferStep_def danglingAt_def)
  next
    case False
    from s have "set out \<subseteq> set o1"
      by (auto simp: inferStep_def split: option.splits prod.splits)
    with False Cons.prems(2) show ?thesis by auto
  qed
  from Cons.IH [OF inferStep_dangling [OF Cons.prems(1) s] this Cons.prems(3) f] show ?case .
qed

lemma infer_warns:
  assumes "danglingAt definitions name info other"
  shows "''Warning: '' @ other @ '' is not defined.'' \<in> set (snd (snd (infer definitions)))"
proof -
  obtain d c w where i: "infer definitions = (d, c, w)"
    by (cases "infer definitions") auto
  then have f: "fold inferStep (map fst definitions) (definitions, 0, []) = (d, c, w)"
    by (simp add: infer_def)
  from assms have "name \<in> set (map fst definitions)"
    by (auto simp: danglingAt_def dest!: map_of_SomeD intro: rev_image_eqI)
  then have "name \<in> set (map fst definitions) \<or> ''Warning: '' @ other @ '' is not defined.'' \<in> set []"
    by simp
  from fold_inferStep_warns [OF assms this refl f] i show ?thesis by simp
qed

text \<open>In \<^verbatim>\<open>xml-schema/analysis.py\<close> the scan that reaches such a record raises.\<close>

lemma inferLoopSA_dangling:
  "danglingAt definitions name info other \<Longrightarrow> name \<in> set names \<Longrightarrow>
   \<exists>e. inferLoopSA names (definitions, changed) = Inl e"
proof (induction names arbitrary: definitions changed)
  case Nil
  then show ?case by simp
next
  case (Cons nm names)
  show ?case
  proof (cases "inferStepSA nm (definitions, changed)")
    case (Inl e)
    then show ?thesis by simp
  next
    case (Inr st)
    obtain d1 c1 where st: "st = (d1, c1)" by (cases st) auto
    from Inr st inferStepSA_inferStep [of nm definitions changed d1 c1 "[]"] obtain o1 where
      s: "inferStep nm (definitions, changed, []) = (d1, c1, o1)" by auto
    have "nm \<noteq> name"
    proof
      assume "nm = name"
      with Cons.prems(1) inferRecordSA_dangling [OF Cons.prems(1)] Inr show False
        by (simp add: inferStepSA_def danglingAt_def)
    qed
    with Cons.prems(2) have "name \<in> set names" by simp
    from Cons.IH [OF inferStep_dangling [OF Cons.prems(1) s] this, of c1] Inr st show ?thesis
      by simp
  qed
qed

lemma resolveSA_dangling:
  assumes "danglingAt definitions name info other"
  shows "\<exists>e. resolveSA definitions = Inl e"
proof -
  from assms have "name \<in> set (map fst definitions)"
    by (auto simp: danglingAt_def dest!: map_of_SomeD intro: rev_image_eqI)
  from inferLoopSA_dangling [OF assms this, of 0] obtain e where "inferSA definitions = Inl e"
    by (auto simp: inferSA_def)
  then show ?thesis
    by (simp add: resolveSA_def resolveLoopSA.simps [of 0 "[]" "[]" definitions])
qed

text \<open>
  Scenario E of the specification: one element whose substitution group is not defined.
\<close>

definition scenarioE :: node where
  "scenarioE =
     Node ''schema'' []
       [Node ''element'' [(''name'', ''s''), (''substitutionGroup'', ''missing'')] []]"

text \<open>
  Claim C3. Let a record be one whose reference the scan consults, the bare name of the
  reference not being a key. In \<^verbatim>\<open>tt/xmlschema.py\<close> the step on the record prints
  \<open>Warning: other is not defined.\<close>, counts no change and leaves the record as it is;
  \<^verbatim>\<open>resolve\<close> returns (it is a total function), having printed that warning in every
  scan, and the record is the same at the end of the run. In
  \<^verbatim>\<open>xml-schema/analysis.py\<close> the step on the same record raises \<^verbatim>\<open>KeyError\<close>, and
  so does \<^verbatim>\<open>resolve\<close> on every such table: there the claim fails.
\<close>

theorem dangling_reference:
  assumes "danglingAt definitions name info other"
  shows "inferRecord definitions name info = (info, 0, [''Warning: '' @ other @ '' is not defined.''])
         \<and> ''Warning: '' @ other @ '' is not defined.'' \<in> set (snd (snd (infer definitions)))
         \<and> map_of (fst (resolve definitions)) name = Some info
         \<and> inferRecordSA definitions name info = Inl (KeyError (bare other))
         \<and> (\<exists>e. resolveSA definitions = Inl e)"
proof (intro conjI)
  show "inferRecord definitions name info = (info, 0, [''Warning: '' @ other @ '' is not defined.''])"
    by (rule inferRecord_dangling [OF assms])
  show "''Warning: '' @ other @ '' is not defined.'' \<in> set (snd (snd (infer definitions)))"
    by (rule infer_warns [OF assms])
  show "inferRecordSA definitions name info = Inl (KeyError (bare other))"
    by (rule inferRecordSA_dangling [OF assms])
  show "\<exists>e. resolveSA definitions = Inl e"
    by (rule resolveSA_dangling [OF assms])
  obtain d i sc out where r: "resolve definitions = (d, i, sc, out)"
    by (cases "resolve definitions") auto
  then have "resolveLoop 0 [] [] definitions = (d, i, sc, out)"
    by (simp add: resolve_def)
  from resolveLoop_scans [OF this] obtain k where "d = (scan ^^ Suc k) definitions"
    by blast
  with scans_dangling [OF assms, of "Suc k"] r
  show "map_of (fst (resolve definitions)) name = Some info"
    by (simp add: danglingAt_def)
qed

theorem dangling_reference_witness:
  "(\<exists>table counts info. extractDefs scenarioE = Inr (table, counts)
      \<and> danglingAt table ''s'' info ''missing''
      \<and> map_of (fst (resolve table)) ''s'' = Some info
      \<and> (\<exists>e. resolveSA table = Inl e))
   \<and> interpretSA scenarioE True = Inl (KeyError ''missing'')"
proof -
  let ?info = "\<lparr>tag = ''element'', abstract = False, mixed = Some False, subs = Some ''missing'',
                 kind = None, base = None\<rparr>"
  have x: "extractDefs scenarioE = Inr ([(''s'', ?info)], \<lambda>name. 0)"
    by (simp add: extractDefs_def scenarioE_def noteInDefinition_def childContext_def
        register_def get_def newInfo_def notInteresting_def)
  have d: "danglingAt [(''s'', ?info)] ''s'' ?info ''missing''"
    by (simp add: danglingAt_def otherOf_def bare_def)
  have k: "interpretSA scenarioE True = Inl (KeyError ''missing'')"
    by code_simp
  from dangling_reference [OF d] x d k show ?thesis
    by blast
qed

section \<open>The override schema\<close>

text \<open>
  Scenario D of the specification: the base schema declares \<open>x\<close> complex and pure, the
  override schema declares \<open>x\<close> complex and mixed. The two documents are the files
  \<open>base.xsd\<close> and \<open>over.xsd\<close>.
\<close>

definition scenarioD_base :: node where
  "scenarioD_base =
     Node ''schema'' [] [Node ''element'' [(''name'', ''x'')] [Node ''complexType'' [] []]]"

definition scenarioD_override :: node where
  "scenarioD_override =
     Node ''schema'' []
       [Node ''element'' [(''name'', ''x'')] [Node ''complexType'' [(''mixed'', ''true'')] []]]"

definition scenarioD_files :: "string \<Rightarrow> node option" where
  "scenarioD_files path =
     (if path = ''base.xsd'' then Some scenarioD_base
      else if path = ''over.xsd'' then Some scenarioD_override
      else None)"

text \<open>
  Claim C1. With an override path, \<^verbatim>\<open>Analysis.__init__\<close> opens the base path a second
  time, so \<^verbatim>\<open>self.oroot\<close> is always the same document as \<^verbatim>\<open>self.root\<close> and the
  override file is never read. On scenario D the run reports \<open>x\<close> as pure and records
  no transition for it, where the claim has \<open>pure ==> mixed\<close>; \<^verbatim>\<open>interpret\<close> itself,
  given the two documents, does produce that transition and lists \<open>x\<close> as mixed.
\<close>

theorem override_read_from_base_path:
  "oroot (Analysis_init files baseSchema (Some opath)) = root (Analysis_init files baseSchema (Some opath))
   \<and> analyse scenarioD_files ''base.xsd'' (Some ''over.xsd'')
       = Some (Inr (Tsv (''x'' @ [CHR 0x09] @ ''complex'' @ [CHR 0x09] @ ''pure''), [(''x'', None)], []))
   \<and> Analysis_interpret scenarioD_base (Some scenarioD_override) True
       = Inr (Tsv (''x'' @ [CHR 0x09] @ ''complex'' @ [CHR 0x09] @ ''mixed''),
              [(''x'', Some ''pure ==> mixed'')], [])"
proof (intro conjI)
  show "oroot (Analysis_init files baseSchema (Some opath))
      = root (Analysis_init files baseSchema (Some opath))"
    by (simp add: Analysis_init_def split: option.splits)
  show "analyse scenarioD_files ''base.xsd'' (Some ''over.xsd'')
      = Some (Inr (Tsv (''x'' @ [CHR 0x09] @ ''complex'' @ [CHR 0x09] @ ''pure''), [(''x'', None)], []))"
    by code_simp
  show "Analysis_interpret scenarioD_base (Some scenarioD_override) True
      = Inr (Tsv (''x'' @ [CHR 0x09] @ ''complex'' @ [CHR 0x09] @ ''mixed''),
             [(''x'', Some ''pure ==> mixed'')], [])"
    by code_simp
qed

lemma set_update_subset: "set (AList.update k v al) \<subseteq> insert (k, v) (set al)"
  by (induction al) auto

lemma update_existing_keys:
  "k \<in> fst ` set al \<Longrightarrow> map fst (AList.update k v al) = map fst al"
  by (simp add: update_keys)

lemma map_of_key: "map_of al k = Some v \<Longrightarrow> k \<in> fst ` set al"
  by (auto dest!: map_of_SomeD intro: rev_image_eqI)

lemma mergeLoop_result:
  "mergeLoop items definitions baseDefinitions ovs = Inr (merged, ovs') \<Longrightarrow>
   set items \<subseteq> set definitions \<Longrightarrow>
   fst ` set items \<subseteq> fst ` set baseDefinitions
   \<and> map fst merged = map fst baseDefinitions
   \<and> (\<forall>n. n \<notin> fst ` set items \<longrightarrow>
          map_of merged n = map_of baseDefinitions n \<and> map_of ovs' n = map_of ovs n)"
proof (induction items arbitrary: baseDefinitions ovs)
  case Nil
  then show ?case by simp
next
  case (Cons item items)
  obtain name odef where item: "item = (name, odef)" by (cases item) auto
  from Cons.prems(2) item have mem: "name \<in> fst ` set definitions"
    by (auto intro: rev_image_eqI)
  from Cons.prems(1) item mem obtain baseDef where b: "map_of baseDefinitions name = Some baseDef"
    by (cases "map_of baseDefinitions name") auto
  let ?base1 = "if transRep baseDef odef \<noteq> None then AList.update name odef baseDefinitions
                else baseDefinitions"
  let ?ovs1 = "AList.update name (transRep baseDef odef) ovs"
  from Cons.prems(1) item mem b have r: "mergeLoop items definitions ?base1 ?ovs1 = Inr (merged, ovs')"
    by simp
  from Cons.prems(2) have "set items \<subseteq> set definitions" by simp
  from Cons.IH [OF r this] have ih: "fst ` set items \<subseteq> fst ` set ?base1"
    "map fst merged = map fst ?base1"
    "\<forall>n. n \<notin> fst ` set items \<longrightarrow> map_of merged n = map_of ?base1 n \<and> map_of ovs' n = map_of ?ovs1 n"
    by blast+
  have keys: "map fst ?base1 = map fst baseDefinitions"
    using map_of_key [OF b] by (simp add: update_existing_keys)
  then have keyset: "fst ` set ?base1 = fst ` set baseDefinitions"
    by (metis list.set_map)
  have other: "\<forall>n. n \<noteq> name \<longrightarrow> map_of ?base1 n = map_of baseDefinitions n \<and> map_of ?ovs1 n = map_of ovs n"
    by (simp add: update_conv')
  from ih keys keyset other item map_of_key [OF b] show ?case
    by auto
qed





subsection \<open>Extraction returns, with distinct names\<close>






text \<open>
  Given to \<^const>\<open>merge\<close> directly, an override table with a name that the base table
  lacks makes it raise: the test \<^verbatim>\<open>if name in definitions\<close> looks the name up in the
  override table itself. No run gets there, since \<^verbatim>\<open>__init__\<close> takes both documents
  from the base path.
\<close>

lemma merge_name_not_in_base:
  assumes "\<exists>n \<in> fst ` set definitions. n \<notin> fst ` set baseDefinitions"
  shows "\<exists>e. merge baseDefinitions definitions = Inl e"
proof (cases "merge baseDefinitions definitions")
  case (Inl e)
  then show ?thesis by blast
next
  case (Inr r)
  obtain merged ovs where "r = (merged, ovs)" by (cases r) auto
  with Inr have "mergeLoop definitions definitions baseDefinitions [] = Inr (merged, ovs)"
    by (simp add: merge_def)
  from mergeLoop_result [OF this] assms show ?thesis by auto
qed




section \<open>The values that \<open>mixed\<close> and \<open>kind\<close> take\<close>

text \<open>
  In a table that \<^verbatim>\<open>findDefs\<close> has built, \<open>mixed\<close> is a boolean and \<open>kind\<close> is
  absent, \<open>simple\<close> or \<open>complex\<close>.
\<close>

definition plainInfo :: "info \<Rightarrow> bool" where
  "plainInfo info =
     (mixed info \<noteq> None \<and> (kind info = None \<or> kind info = Some ''simple'' \<or> kind info = Some ''complex''))"

definition plainTable :: "table \<Rightarrow> bool" where
  "plainTable definitions = list_all (\<lambda>p. plainInfo (snd p)) definitions"

lemma plainTable_update:
  "plainTable definitions \<Longrightarrow> plainInfo v \<Longrightarrow> plainTable (AList.update k v definitions)"
  using set_update_subset [of k v definitions]
  by (auto simp: plainTable_def list_all_iff)

lemma plainTable_map_of:
  "plainTable definitions \<Longrightarrow> map_of definitions k = Some v \<Longrightarrow> plainInfo v"
  by (auto simp: plainTable_def list_all_iff dest!: map_of_SomeD)

lemma plainInfo_newInfo: "plainInfo (newInfo n)"
  by (simp add: plainInfo_def newInfo_def)

lemma noteInDefinition_plain:
  assumes "noteInDefinition n definingName topDef definitions = Inr definitions'"
    and "plainTable definitions"
  shows "plainTable definitions'"
proof (cases "definingName = None \<or> definingName = Some []")
  case True
  with assms show ?thesis by (auto simp: noteInDefinition_def)
next
  case False
  then obtain d where d: "definingName = Some d" "d \<noteq> []" by auto
  show ?thesis
  proof (cases "map_of definitions d")
    case None
    with assms d show ?thesis
      by (auto simp: noteInDefinition_def Let_def split: if_splits option.splits)
  next
    case (Some i)
    from plainTable_map_of [OF assms(2) Some] have pi: "plainInfo i" .
    then have p1: "plainInfo (i\<lparr>kind := Some (if localname n = ''simpleType'' then ''simple'' else ''complex'')\<rparr>)"
      and p2: "plainInfo (i\<lparr>kind := Some (if localname n = ''simpleType'' then ''simple'' else ''complex''),
                            mixed := Some True\<rparr>)"
      and p3: "\<And>b. plainInfo (i\<lparr>base := Some b\<rparr>)"
      by (simp_all add: plainInfo_def)
    from assms(1) d Some have "definitions' = definitions
      \<or> definitions' = AList.update d (i\<lparr>kind := Some (if localname n = ''simpleType'' then ''simple'' else ''complex'')\<rparr>) definitions
      \<or> definitions' = AList.update d (i\<lparr>kind := Some (if localname n = ''simpleType'' then ''simple'' else ''complex''),
                            mixed := Some True\<rparr>) definitions
      \<or> (\<exists>b. definitions' = AList.update d (i\<lparr>base := Some b\<rparr>) definitions)"
      by (auto simp: noteInDefinition_def Let_def split: if_splits option.splits)
    with assms(2) p1 p2 p3 show ?thesis
      by (auto intro: plainTable_update)
  qed
qed

lemma register_plain:
  "plainTable (fst st) \<Longrightarrow> plainTable (fst (register n st))"
  by (cases st)
     (auto simp: register_def plainInfo_newInfo intro: plainTable_update split: option.splits)

lemma findDefs_plain:
  "findDefs n definingName topDef st = Inr st' \<Longrightarrow> plainTable (fst st) \<Longrightarrow> plainTable (fst st')"
  "findDefsChildren ns definingName topDef st = Inr st' \<Longrightarrow> plainTable (fst st) \<Longrightarrow> plainTable (fst st')"
proof (induction n definingName topDef st and ns definingName topDef st
    arbitrary: st' and st' rule: findDefs_findDefsChildren.induct)
  case (1 tg as cs definingName topDef st)
  from "1.prems"(1) obtain definitions where
    nd: "noteInDefinition (Node tg as cs) definingName topDef (fst st) = Inr definitions"
    by (cases "noteInDefinition (Node tg as cs) definingName topDef (fst st)") auto
  obtain defining top' where cc: "childContext (Node tg as cs) definingName = (defining, top')"
    by (cases "childContext (Node tg as cs) definingName") auto
  from "1.prems"(1) nd cc have r:
    "findDefsChildren cs defining top' (register (Node tg as cs) (definitions, snd st)) = Inr st'"
    by simp
  from noteInDefinition_plain [OF nd "1.prems"(2)]
  have "plainTable (fst (register (Node tg as cs) (definitions, snd st)))"
    using register_plain [of "(definitions, snd st)" "Node tg as cs"] by simp
  from "1.IH" [OF nd cc [symmetric] r this] show ?case .
next
  case (2 defining top' st)
  then show ?case by simp
next
  case (3 child cs defining top' st)
  from "3.prems"(1) obtain st1 where f: "findDefs child defining top' st = Inr st1"
    by (cases "findDefs child defining top' st") auto
  with "3.prems"(1) have r: "findDefsChildren cs defining top' st1 = Inr st'"
    by simp
  from "3.IH"(2) [OF f r "3.IH"(1) [OF f "3.prems"(2)]] show ?case .
qed

lemma extractDefs_plain: "extractDefs rt = Inr (definitions, redefinitions) \<Longrightarrow> plainTable definitions"
  using findDefs_plain(1) [of rt None False "([], \<lambda>name. 0)" "(definitions, redefinitions)"]
  by (simp add: extractDefs_def plainTable_def)

text \<open>Resolution keeps such a table such a table.\<close>

lemma inferRecord_plain:
  assumes "inferRecord definitions name info = (info', c, w)"
    and "plainTable definitions" and "plainInfo info"
  shows "plainInfo info'"
proof (cases "mixed info = Some True \<or> otherOf info = None \<or> otherOf info = Some []
    \<or> (\<exists>other. otherOf info = Some other \<and> map_of definitions (bare other) = None)")
  case True
  with assms(1) have "info' = info"
    by (auto simp: inferRecord_def split: if_splits)
  with assms(3) show ?thesis by simp
next
  case False
  then obtain other otherInfo where o: "otherOf info = Some other" "other \<noteq> []"
    "map_of definitions (bare other) = Some otherInfo" and m: "mixed info \<noteq> Some True"
    by auto
  from plainTable_map_of [OF assms(2) o(3)] have po: "plainInfo otherInfo" .
  obtain info1 c1 where s1: "mixedFromOther info otherInfo = (info1, c1)"
    by (cases "mixedFromOther info otherInfo") auto
  obtain info2 c2 w2 where s2:
    "kindFromOther other info1 (if bare other = name then info1 else otherInfo) = (info2, c2, w2)"
    by (cases "kindFromOther other info1 (if bare other = name then info1 else otherInfo)") auto
  obtain info3 c3 w3 where s3:
    "mixedIfUnknown other info2 (if bare other = name then info2 else otherInfo) = (info3, c3, w3)"
    by (cases "mixedIfUnknown other info2 (if bare other = name then info2 else otherInfo)") auto
  from assms(1) o m s1 s2 s3 have r: "info' = info3"
    by (simp add: inferRecord_def)
  from s1 assms(3) have p1: "plainInfo info1"
    by (auto simp: mixedFromOther_def plainInfo_def split: if_splits)
  with s2 po have p2: "plainInfo info2"
    by (auto simp: kindFromOther_def plainInfo_def split: if_splits)
  with s3 have "plainInfo info3"
    by (auto simp: mixedIfUnknown_def plainInfo_def split: if_splits)
  with r show ?thesis by simp
qed

lemma inferStep_plain:
  assumes "inferStep name (definitions, changed, out) = (definitions', changed', out')"
    and "plainTable definitions"
  shows "plainTable definitions'"
proof (cases "map_of definitions name")
  case None
  with assms show ?thesis by (simp add: inferStep_def)
next
  case (Some info)
  obtain info' c w where r: "inferRecord definitions name info = (info', c, w)"
    by (cases "inferRecord definitions name info") auto
  from assms(1) Some r have "definitions' = AList.update name info' definitions"
    by (simp add: inferStep_def)
  with plainTable_update [OF assms(2) inferRecord_plain [OF r assms(2) plainTable_map_of [OF assms(2) Some]]]
  show ?thesis by simp
qed

lemma fold_inferStep_plain:
  "fold inferStep names (definitions, changed, out) = (definitions', changed', out') \<Longrightarrow>
   plainTable definitions \<Longrightarrow> plainTable definitions'"
proof (induction names arbitrary: definitions changed out)
  case Nil
  then show ?case by simp
next
  case (Cons name names)
  obtain d1 c1 o1 where s: "inferStep name (definitions, changed, out) = (d1, c1, o1)"
    by (cases "inferStep name (definitions, changed, out)") auto
  with Cons.prems have "fold inferStep names (d1, c1, o1) = (definitions', changed', out')"
    by simp
  from Cons.IH [OF this inferStep_plain [OF s Cons.prems(2)]] show ?case .
qed

lemma scan_plain: "plainTable definitions \<Longrightarrow> plainTable (scan definitions)"
proof -
  assume p: "plainTable definitions"
  obtain d c w where i: "infer definitions = (d, c, w)"
    by (cases "infer definitions") auto
  then have "fold inferStep (map fst definitions) (definitions, 0, []) = (d, c, w)"
    by (simp add: infer_def)
  from fold_inferStep_plain [OF this p] i show ?thesis by (simp add: scan_def)
qed

lemma scans_plain: "plainTable definitions \<Longrightarrow> plainTable ((scan ^^ k) definitions)"
  by (induction k) (simp_all add: scan_plain)

lemma resolve_plain:
  assumes "plainTable definitions"
  shows "plainTable (fst (resolve definitions))"
proof -
  obtain d i sc out where r: "resolve definitions = (d, i, sc, out)"
    by (cases "resolve definitions") auto
  then have "resolveLoop 0 [] [] definitions = (d, i, sc, out)"
    by (simp add: resolve_def)
  from resolveLoop_scans [OF this] obtain k where "d = (scan ^^ Suc k) definitions"
    by blast
  with scans_plain [OF assms, of "Suc k"] r show ?thesis by simp
qed

lemma resolveSA_plain:
  assumes "plainTable definitions" and "resolveSA definitions = Inr (definitions', i, scans, out)"
  shows "plainTable definitions'"
  using resolveSA_resolve [OF assms(2)] resolve_plain [OF assms(1)] by auto

text \<open>
  Scenario A of the specification: the element \<open>p\<close> has no \<open>mixed\<close> attribute; its
  child \<open>complexType\<close> has \<open>mixed="true"\<close>.
\<close>

definition scenarioA_element :: node where
  "scenarioA_element =
     Node ''element'' [(''name'', ''p'')] [Node ''complexType'' [(''mixed'', ''true'')] []]"

definition scenarioA :: node where
  "scenarioA = Node ''schema'' [] [scenarioA_element]"

text \<open>
  Claim C10 as stated fails in its parenthesis: in the extracted table the \<open>mixed\<close> of
  a record can be true although the \<open>mixed\<close> attribute of the node that defines the name
  is not \<open>true\<close>. The record of \<open>p\<close> in scenario A is mixed, by lines 222--223.
\<close>

theorem mixed_of_defining_node_counterexample:
  "get scenarioA_element ''name'' = Some ''p'' \<and> get scenarioA_element ''mixed'' \<noteq> Some ''true''
   \<and> \<not> isl (extractDefs scenarioA)
   \<and> fst (projr (extractDefs scenarioA))
       = [(''p'', \<lparr>tag = ''element'', abstract = False, mixed = Some True, subs = None,
                    kind = Some ''complex'', base = None\<rparr>)]"
  by code_simp

lemma findDefs_mixed_attribute:
  assumes "\<forall>k. k \<noteq> ''mixed'' \<longrightarrow> map_of as k = map_of as' k"
    and "map_of as ''mixed'' \<noteq> Some ''true''" and "map_of as' ''mixed'' \<noteq> Some ''true''"
  shows "findDefs (Node tg as cs) definingName topDef st = findDefs (Node tg as' cs) definingName topDef st"
proof -
  from assms(1) have e: "map_of as ''name'' = map_of as' ''name''"
    "map_of as ''abstract'' = map_of as' ''abstract''"
    "map_of as ''substitutionGroup'' = map_of as' ''substitutionGroup''"
    "map_of as ''base'' = map_of as' ''base''"
    by simp_all
  have "\<And>d t x. noteInDefinition (Node tg as cs) d t x = noteInDefinition (Node tg as' cs) d t x"
    using e assms(2,3)
    by (simp add: noteInDefinition_def get_def cong: if_cong option.case_cong)
  then have n: "noteInDefinition (Node tg as cs) = noteInDefinition (Node tg as' cs)"
    by (intro ext)
  have i: "newInfo (Node tg as cs) = newInfo (Node tg as' cs)"
    using e assms(2,3) by (simp add: newInfo_def get_def)
  have "\<And>x. register (Node tg as cs) x = register (Node tg as' cs) x"
    using e i by (simp add: register_def get_def cong: if_cong option.case_cong)
  then have r: "register (Node tg as cs) = register (Node tg as' cs)"
    by (intro ext)
  have "\<And>x. childContext (Node tg as cs) x = childContext (Node tg as' cs) x"
    using e by (simp add: childContext_def get_def cong: if_cong)
  then have c: "childContext (Node tg as cs) = childContext (Node tg as' cs)"
    by (intro ext)
  show ?thesis
    by (simp only: findDefs.simps n r c)
qed

text \<open>
  Claim C10, amended. In every extracted table the \<open>mixed\<close> of every record is a
  boolean, never \<^verbatim>\<open>None\<close>, and resolution (of either file) preserves this. The record
  a node registers has \<open>mixed\<close> true exactly when the \<open>mixed\<close> attribute of the node is the
  string \<open>true\<close>, false otherwise, also when the attribute is absent (a later
  \<open>simpleType\<close> or \<open>complexType\<close> child with \<open>mixed="true"\<close> can still raise it to true).
  Hence two nodes whose attributes differ only in \<open>mixed\<close>, neither being \<open>true\<close>
  (absent, \<open>false\<close>, or anything else), are extracted alike.
\<close>

theorem mixed_always_boolean:
  assumes "extractDefs rt = Inr (definitions, redefinitions)"
  shows "(\<forall>p \<in> set definitions. mixed (snd p) = Some True \<or> mixed (snd p) = Some False)
         \<and> (\<forall>p \<in> set (fst (resolve definitions)). mixed (snd p) = Some True \<or> mixed (snd p) = Some False)
         \<and> (\<forall>r. resolveSA definitions = Inr r \<longrightarrow>
               (\<forall>p \<in> set (fst r). mixed (snd p) = Some True \<or> mixed (snd p) = Some False))
         \<and> mixed (newInfo n) = Some (get n ''mixed'' = Some ''true'')
         \<and> (\<forall>as as' tg cs definingName topDef st.
               (\<forall>k. k \<noteq> ''mixed'' \<longrightarrow> map_of as k = map_of as' k)
               \<and> map_of as ''mixed'' \<noteq> Some ''true'' \<and> map_of as' ''mixed'' \<noteq> Some ''true''
               \<longrightarrow> findDefs (Node tg as cs) definingName topDef st
                     = findDefs (Node tg as' cs) definingName topDef st)"
proof (intro conjI)
  have b: "\<And>t. plainTable t \<Longrightarrow> \<forall>p \<in> set t. mixed (snd p) = Some True \<or> mixed (snd p) = Some False"
    by (auto simp: plainTable_def plainInfo_def list_all_iff)
  from extractDefs_plain [OF assms] have p: "plainTable definitions" .
  from b [OF p] show "\<forall>p \<in> set definitions. mixed (snd p) = Some True \<or> mixed (snd p) = Some False" .
  from b [OF resolve_plain [OF p]]
  show "\<forall>p \<in> set (fst (resolve definitions)). mixed (snd p) = Some True \<or> mixed (snd p) = Some False" .
  show "\<forall>r. resolveSA definitions = Inr r \<longrightarrow>
      (\<forall>p \<in> set (fst r). mixed (snd p) = Some True \<or> mixed (snd p) = Some False)"
  proof (intro allI impI)
    fix r
    assume a: "resolveSA definitions = Inr r"
    obtain d i sc out where "r = (d, i, sc, out)" by (cases r) auto
    with a resolveSA_plain [OF p, of d i sc out] b [of d]
    show "\<forall>p \<in> set (fst r). mixed (snd p) = Some True \<or> mixed (snd p) = Some False"
      by simp
  qed
  show "mixed (newInfo n) = Some (get n ''mixed'' = Some ''true'')"
    by (simp add: newInfo_def)
  show "\<forall>as as' tg cs definingName topDef st.
      (\<forall>k. k \<noteq> ''mixed'' \<longrightarrow> map_of as k = map_of as' k)
      \<and> map_of as ''mixed'' \<noteq> Some ''true'' \<and> map_of as' ''mixed'' \<noteq> Some ''true''
      \<longrightarrow> findDefs (Node tg as cs) definingName topDef st
            = findDefs (Node tg as' cs) definingName topDef st"
  proof (intro allI impI)
    fix as as' :: "(string \<times> string) list" and tg cs definingName topDef st
    assume a: "(\<forall>k. k \<noteq> ''mixed'' \<longrightarrow> map_of as k = map_of as' k)
      \<and> map_of as ''mixed'' \<noteq> Some ''true'' \<and> map_of as' ''mixed'' \<noteq> Some ''true''"
    show "findDefs (Node tg as cs) definingName topDef st = findDefs (Node tg as' cs) definingName topDef st"
      by (rule findDefs_mixed_attribute [OF a [THEN conjunct1] a [THEN conjunct2, THEN conjunct1]
            a [THEN conjunct2, THEN conjunct2]])
  qed
qed

text \<open>
  A schema for the examples: the chain \<open>r\<close>, \<open>q\<close>, \<open>p\<close>, an element \<open>u\<close> with no type,
  and a named type.
\<close>

definition exampleSchema :: node where
  "exampleSchema =
     Node ''schema'' []
       [Node ''element'' [(''name'', ''r''), (''substitutionGroup'', ''tei:q'')] [],
        Node ''element'' [(''name'', ''q'')]
          [Node ''complexType'' []
             [Node ''complexContent'' [] [Node ''extension'' [(''base'', ''p'')] []]]],
        Node ''element'' [(''name'', ''p'')] [Node ''complexType'' [(''mixed'', ''true'')] []],
        Node ''element'' [(''name'', ''u'')] [],
        Node ''simpleType'' [(''name'', ''t'')] []]"

theorem mixed_always_boolean_witness:
  "(\<exists>table counts. extractDefs exampleSchema = Inr (table, counts)
      \<and> (\<forall>p \<in> set table. mixed (snd p) = Some True \<or> mixed (snd p) = Some False)
      \<and> (\<exists>r. resolveSA table = Inr r
            \<and> (\<forall>p \<in> set (fst r). mixed (snd p) = Some True \<or> mixed (snd p) = Some False)))
   \<and> findDefs (Node ''element'' [(''name'', ''u''), (''mixed'', ''false'')] []) None False ([], \<lambda>name. 0)
     = findDefs (Node ''element'' [(''name'', ''u'')] []) None False ([], \<lambda>name. 0)"
proof -
  obtain table counts where x: "extractDefs exampleSchema = Inr (table, counts)"
  proof (cases "extractDefs exampleSchema")
    case (Inl e)
    moreover have "\<not> isl (extractDefs exampleSchema)" by code_simp
    ultimately show ?thesis by simp
  next
    case (Inr st)
    with that show ?thesis by (cases st) auto
  qed
  have "case resolveSA (fst (projr (extractDefs exampleSchema))) of Inl e \<Rightarrow> False | Inr r \<Rightarrow> True"
    by code_simp
  with x obtain r where r: "resolveSA table = Inr r"
    by (cases "resolveSA table") auto
  have k: "(\<forall>k. k \<noteq> ''mixed'' \<longrightarrow>
        map_of [(''name'', ''u''), (''mixed'', ''false'')] k = map_of [(''name'', ''u'')] k)
      \<and> map_of [(''name'', ''u''), (''mixed'', ''false'')] ''mixed'' \<noteq> Some ''true''
      \<and> map_of [(''name'', ''u'')] ''mixed'' \<noteq> Some ''true''"
    by simp
  note m = mixed_always_boolean [OF x]
  from m x r have a: "\<exists>table counts. extractDefs exampleSchema = Inr (table, counts)
      \<and> (\<forall>p \<in> set table. mixed (snd p) = Some True \<or> mixed (snd p) = Some False)
      \<and> (\<exists>r. resolveSA table = Inr r
            \<and> (\<forall>p \<in> set (fst r). mixed (snd p) = Some True \<or> mixed (snd p) = Some False))"
    by blast
  note f = m [THEN conjunct2, THEN conjunct2, THEN conjunct2, THEN conjunct2, rule_format]
  have b: "findDefs (Node ''element'' [(''name'', ''u''), (''mixed'', ''false'')] []) None False ([], \<lambda>name. 0)
     = findDefs (Node ''element'' [(''name'', ''u'')] []) None False ([], \<lambda>name. 0)"
    by (rule f) (rule k)
  from a b show ?thesis by blast
qed

section \<open>The third update of \<^verbatim>\<open>infer\<close>\<close>







section \<open>The labels of the report\<close>












section \<open>Extraction is first-write-wins\<close>

text \<open>
  What no later node changes in a record: the three fields a declaration registers
  besides \<open>mixed\<close>.
\<close>

definition sameDeclaration :: "info \<Rightarrow> info \<Rightarrow> bool" where
  "sameDeclaration info info' =
     (tag info' = tag info \<and> abstract info' = abstract info \<and> subs info' = subs info)"

lemma noteInDefinition_declaration:
  assumes "noteInDefinition n definingName topDef definitions = Inr definitions'"
    and "map_of definitions name = Some info"
  shows "\<exists>info'. map_of definitions' name = Some info' \<and> sameDeclaration info info'"
proof (cases "definitions' = definitions")
  case True
  with assms(2) show ?thesis by (simp add: sameDeclaration_def)
next
  case False
  with assms(1) obtain d i i' where u: "map_of definitions d = Some i"
    "definitions' = AList.update d i' definitions" "sameDeclaration i i'"
    by (auto simp: noteInDefinition_def Let_def sameDeclaration_def split: if_splits option.splits)
  show ?thesis
  proof (cases "name = d")
    case True
    with u assms(2) show ?thesis by (simp add: update_conv')
  next
    case False
    with u assms(2) show ?thesis by (simp add: update_conv' sameDeclaration_def)
  qed
qed

lemma register_keeps:
  assumes "map_of (fst st) name = Some info"
  shows "map_of (fst (register n st)) name = Some info" and "snd st name \<le> snd (register n st) name"
proof -
  obtain definitions redefinitions where st: "st = (definitions, redefinitions)"
    by (cases st) auto
  from assms st map_of_key [of definitions name info]
  show "map_of (fst (register n st)) name = Some info"
    by (auto simp: register_def update_conv' split: option.splits)
  from st show "snd st name \<le> snd (register n st) name"
    by (auto simp: register_def split: option.splits)
qed

lemma findDefs_declaration:
  "findDefs n definingName topDef st = Inr st' \<Longrightarrow> map_of (fst st) name = Some info \<Longrightarrow>
   (\<exists>info'. map_of (fst st') name = Some info' \<and> sameDeclaration info info')
   \<and> snd st name \<le> snd st' name"
  "findDefsChildren ns definingName topDef st = Inr st' \<Longrightarrow> map_of (fst st) name = Some info \<Longrightarrow>
   (\<exists>info'. map_of (fst st') name = Some info' \<and> sameDeclaration info info')
   \<and> snd st name \<le> snd st' name"
proof (induction n definingName topDef st and ns definingName topDef st
    arbitrary: st' info and st' info rule: findDefs_findDefsChildren.induct)
  case (1 tg as cs definingName topDef st)
  from "1.prems"(1) obtain definitions where
    nd: "noteInDefinition (Node tg as cs) definingName topDef (fst st) = Inr definitions"
    by (cases "noteInDefinition (Node tg as cs) definingName topDef (fst st)") auto
  obtain defining top' where cc: "childContext (Node tg as cs) definingName = (defining, top')"
    by (cases "childContext (Node tg as cs) definingName") auto
  let ?st1 = "register (Node tg as cs) (definitions, snd st)"
  from "1.prems"(1) nd cc have r: "findDefsChildren cs defining top' ?st1 = Inr st'"
    by simp
  from noteInDefinition_declaration [OF nd "1.prems"(2)] obtain info1 where
    i1: "map_of definitions name = Some info1" "sameDeclaration info info1" by blast
  from register_keeps [of "(definitions, snd st)" name info1 "Node tg as cs"] i1
  have k: "map_of (fst ?st1) name = Some info1" "snd st name \<le> snd ?st1 name"
    by simp_all
  from "1.IH" [OF nd cc [symmetric] r k(1)] obtain info' where
    "map_of (fst st') name = Some info'" "sameDeclaration info1 info'" "snd ?st1 name \<le> snd st' name"
    by blast
  with i1 k(2) show ?case
    by (auto simp: sameDeclaration_def)
next
  case (2 defining top' st)
  then show ?case by (auto simp: sameDeclaration_def)
next
  case (3 child cs defining top' st)
  from "3.prems"(1) obtain st1 where f: "findDefs child defining top' st = Inr st1"
    by (cases "findDefs child defining top' st") auto
  with "3.prems"(1) have r: "findDefsChildren cs defining top' st1 = Inr st'"
    by simp
  from "3.IH"(1) [OF f "3.prems"(2)] obtain info1 where
    i1: "map_of (fst st1) name = Some info1" "sameDeclaration info info1" "snd st name \<le> snd st1 name"
    by blast
  from "3.IH"(2) [OF f r i1(1)] obtain info' where
    "map_of (fst st') name = Some info'" "sameDeclaration info1 info'" "snd st1 name \<le> snd st' name"
    by blast
  with i1 show ?case
    by (auto simp: sameDeclaration_def)
qed

text \<open>
  A schema that declares \<open>Foo\<close> twice with different tags, side by side; one where the
  second declaration is the named type inside the element \<open>Foo\<close>; and one where a type
  \<open>Foo\<close> is followed by an element \<open>Foo\<close> with an anonymous type.
\<close>

definition fooTwice :: node where
  "fooTwice =
     Node ''schema'' []
       [Node ''element'' [(''name'', ''Foo'')] [],
        Node ''complexType'' [(''name'', ''Foo''), (''mixed'', ''true'')] []]"

definition fooNested :: node where
  "fooNested =
     Node ''schema'' []
       [Node ''element'' [(''name'', ''Foo'')]
          [Node ''complexType'' [(''name'', ''Foo''), (''mixed'', ''true'')] []]]"

definition fooTypeThenElement :: node where
  "fooTypeThenElement =
     Node ''schema'' []
       [Node ''complexType'' [(''name'', ''Foo'')] [],
        Node ''element'' [(''name'', ''Foo'')]
          [Node ''simpleType'' [(''mixed'', ''true'')]
             [Node ''restriction'' [] [Node ''extension'' [(''base'', ''xs:string'')] []]]]]"

text \<open>
  Claim C7 as stated fails: the record of a name that is declared a second time is not
  kept completely unchanged by the extractor. In \<^const>\<open>fooNested\<close> the element \<open>Foo\<close> is
  registered with no kind and \<open>mixed\<close> false, and the visit of the second node named
  \<open>Foo\<close> sets its kind and \<open>mixed\<close>; in \<^const>\<open>fooTypeThenElement\<close> the record of the type
  \<open>Foo\<close> gets kind, \<open>mixed\<close> and \<open>base\<close> from the children of the element declared after
  it. In both the tag is that of the first declaration and the counter is 1.
\<close>

theorem first_record_rewritten_counterexample:
  "\<not> isl (extractDefs fooNested)
   \<and> fst (projr (extractDefs fooNested))
       = [(''Foo'', \<lparr>tag = ''element'', abstract = False, mixed = Some True, subs = None,
                      kind = Some ''complex'', base = None\<rparr>)]
   \<and> snd (projr (extractDefs fooNested)) ''Foo'' = 1
   \<and> newInfo (Node ''element'' [(''name'', ''Foo'')] [])
       = \<lparr>tag = ''element'', abstract = False, mixed = Some False, subs = None,
           kind = None, base = None\<rparr>
   \<and> \<not> isl (extractDefs fooTypeThenElement)
   \<and> fst (projr (extractDefs fooTypeThenElement))
       = [(''Foo'', \<lparr>tag = ''complexType'', abstract = False, mixed = Some True, subs = None,
                      kind = Some ''simple'', base = Some ''xs:string''\<rparr>)]
   \<and> snd (projr (extractDefs fooTypeThenElement)) ''Foo'' = 1
   \<and> newInfo (Node ''complexType'' [(''name'', ''Foo'')] [])
       = \<lparr>tag = ''complexType'', abstract = False, mixed = Some False, subs = None,
           kind = None, base = None\<rparr>"
  by code_simp

text \<open>
  Claim C7, amended. Extraction is first-write-wins for what a declaration registers.
  When the extractor meets a second named node whose name (with a tag outside
  \<open>attribute\<close>, \<open>attributeGroup\<close>, \<open>group\<close>) is already a key of the table, the
  registration adds and replaces nothing and increments the redefinition counter of
  that name; through the whole visit of the node and its subtree the name keeps a
  record with the tag, \<open>abstract\<close> and \<open>subs\<close> of the existing one, and the counter does
  not fall back. (The kind, \<open>mixed\<close> and \<open>base\<close> of the record can still be written, from
  type and extension nodes below an element of that name.) Declaring \<open>Foo\<close> twice with
  different tags keeps the tag of the first declaration and leaves the counter of
  \<open>Foo\<close> equal to 1.
\<close>

theorem first_write_wins:
  assumes "get n ''name'' = Some name" and "name \<noteq> []" and "localname n \<notin> notInteresting"
    and "map_of definitions name = Some info"
  shows "register n (definitions, redefinitions)
           = (definitions, redefinitions(name := redefinitions name + 1))
         \<and> (\<forall>definingName topDef st'.
               findDefs n definingName topDef (definitions, redefinitions) = Inr st' \<longrightarrow>
                 (\<exists>info'. map_of (fst st') name = Some info' \<and> tag info' = tag info
                    \<and> abstract info' = abstract info \<and> subs info' = subs info)
                 \<and> redefinitions name + 1 \<le> snd st' name)
         \<and> (case extractDefs fooTwice of
              Inl e \<Rightarrow> False
            | Inr (table, counts) \<Rightarrow>
                map (\<lambda>(name, info). (name, tag info, mixed info)) table
                  = [(''Foo'', ''element'', Some False)]
                \<and> counts ''Foo'' = 1)"
proof (intro conjI allI impI)
  from assms map_of_key [OF assms(4)] show "register n (definitions, redefinitions)
      = (definitions, redefinitions(name := redefinitions name + 1))"
    by (simp add: register_def)
next
  show "case extractDefs fooTwice of
          Inl e \<Rightarrow> False
        | Inr (table, counts) \<Rightarrow>
            map (\<lambda>(name, info). (name, tag info, mixed info)) table
              = [(''Foo'', ''element'', Some False)]
            \<and> counts ''Foo'' = 1"
    by code_simp
next
  fix definingName topDef st'
  assume f: "findDefs n definingName topDef (definitions, redefinitions) = Inr st'"
  obtain tg as cs where n: "n = Node tg as cs" by (cases n) auto
  from f n obtain definitions1 where
    nd: "noteInDefinition n definingName topDef definitions = Inr definitions1"
    by (cases "noteInDefinition n definingName topDef definitions") auto
  obtain defining top' where cc: "childContext n definingName = (defining, top')"
    by (cases "childContext n definingName") auto
  from noteInDefinition_declaration [OF nd assms(4)] obtain info1 where
    i1: "map_of definitions1 name = Some info1" "sameDeclaration info info1" by blast
  from assms(1-3) map_of_key [OF i1(1)]
  have reg: "register n (definitions1, redefinitions)
      = (definitions1, redefinitions(name := redefinitions name + 1))"
    by (simp add: register_def)
  from f n nd cc reg have r:
    "findDefsChildren cs defining top' (definitions1, redefinitions(name := redefinitions name + 1)) = Inr st'"
    by simp
  from findDefs_declaration(2) [OF r, of name info1] i1(1) obtain info' where
    e: "map_of (fst st') name = Some info'" "sameDeclaration info1 info'"
    "redefinitions name + 1 \<le> snd st' name"
    by auto
  from e i1(2) show "\<exists>info'. map_of (fst st') name = Some info' \<and> tag info' = tag info
      \<and> abstract info' = abstract info \<and> subs info' = subs info"
    by (auto simp: sameDeclaration_def)
  from e show "redefinitions name + 1 \<le> snd st' name"
    by simp
qed

theorem first_write_wins_witness:
  "register (Node ''complexType'' [(''name'', ''Foo''), (''mixed'', ''true'')] [])
     ([(''Foo'', newInfo (Node ''element'' [(''name'', ''Foo'')] []))], (\<lambda>name. 0))
   = ([(''Foo'', newInfo (Node ''element'' [(''name'', ''Foo'')] []))], (\<lambda>name. 0)(''Foo'' := 1))
   \<and> (\<exists>st' info'.
         findDefs (Node ''complexType'' [(''name'', ''Foo''), (''mixed'', ''true'')] []) (Some ''Foo'') True
           ([(''Foo'', newInfo (Node ''element'' [(''name'', ''Foo'')] []))], (\<lambda>name. 0)) = Inr st'
         \<and> map_of (fst st') ''Foo'' = Some info' \<and> tag info' = ''element''
         \<and> 1 \<le> snd st' ''Foo'')"
proof -
  let ?n = "Node ''complexType'' [(''name'', ''Foo''), (''mixed'', ''true'')] []"
  let ?d = "[(''Foo'', newInfo (Node ''element'' [(''name'', ''Foo'')] []))]"
  have a: "get ?n ''name'' = Some ''Foo''" "''Foo'' \<noteq> []" "localname ?n \<notin> notInteresting"
    "map_of ?d ''Foo'' = Some (newInfo (Node ''element'' [(''name'', ''Foo'')] []))"
    by (simp_all add: get_def notInteresting_def)
  have "\<not> isl (findDefs ?n (Some ''Foo'') True (?d, \<lambda>name. 0))"
    by code_simp
  then obtain st' where f: "findDefs ?n (Some ''Foo'') True (?d, \<lambda>name. 0) = Inr st'"
    by (cases "findDefs ?n (Some ''Foo'') True (?d, \<lambda>name. 0)") auto
  note w = first_write_wins [OF a, of "\<lambda>name. 0"]
  from w [THEN conjunct2, THEN conjunct1, rule_format, OF f] obtain info' where
    "map_of (fst st') ''Foo'' = Some info'"
    "tag info' = tag (newInfo (Node ''element'' [(''name'', ''Foo'')] []))"
    "1 \<le> snd st' ''Foo''"
    by auto
  with f have "\<exists>st' info'. findDefs ?n (Some ''Foo'') True (?d, \<lambda>name. 0) = Inr st'
      \<and> map_of (fst st') ''Foo'' = Some info' \<and> tag info' = ''element'' \<and> 1 \<le> snd st' ''Foo''"
    by (auto simp: newInfo_def)
  with w [THEN conjunct1] show ?thesis
    by simp
qed

end
